theory Spec2Isabelle
  imports Main "HOL-Library.Word"
begin

unbundle bit_operations_syntax

section \<open>Build-time configuration and external declarations\<close>

text \<open>
  The three debounce engines are compiled against \<open>matrix.h\<close>, \<open>timer.h\<close> and
  \<open>quantum.h\<close>, which fix the row type \<open>matrix_row_t\<close>, the column count
  \<open>MATRIX_COLS\<close>, the timer type \<open>fast_timer_t\<close> and possibly the windows
  \<open>DEBOUNCE_DOWN\<close>, \<open>DEBOUNCE_UP\<close> and \<open>DEBOUNCE_QUIESCE\<close> (each engine only
  supplies a default under \<open>#ifndef\<close>). A row is an \<open>'a word\<close>, a fast timer
  reading a \<open>'t word\<close> (the records of file-scope variables are polymorphic in
  the type of a reading), and the macros are the fields of a configuration.
  All per-key counters are \<open>uint8_t\<close>, that is \<open>8 word\<close>; a macro value stored
  into a counter is truncated by \<open>of_nat\<close>.

  The matrices \<open>raw\<close> and \<open>cooked\<close> are lists of rows. C does not check an index:
  the caller passes arrays of at least \<open>num_rows\<close> rows, and the theorems below
  assume as much of \<open>cooked\<close>, which is written. The loop counters \<open>row\<close>, \<open>col\<close>,
  \<open>r\<close> and \<open>c\<close> are \<open>uint8_t\<close>; the loops are folds over \<open>[0..<n]\<close>, which is
  what they compute for \<open>n\<close> up to 255 (the sparse-list and the quiescing engine
  refuse to build with 255 cells or more). Where the source writes \<open>1 << col\<close>, an
  \<open>int\<close> converted to \<open>matrix_row_t\<close>, the mask is \<open>push_bit col 1\<close> in the row type:
  the same value as long as \<open>col\<close> is below the width of \<open>int\<close>.
\<close>

record config =
  MATRIX_COLS :: nat
  DEBOUNCE_DOWN :: nat
  DEBOUNCE_UP :: nat
  DEBOUNCE_QUIESCE :: nat

definition DEBOUNCE :: nat where
  "DEBOUNCE = 5"

text \<open>The defaults of the asymmetric engine: both windows are \<open>DEBOUNCE\<close>.\<close>

definition asym_defaults :: "nat \<Rightarrow> config" where
  "asym_defaults cols =
     \<lparr>MATRIX_COLS = cols, DEBOUNCE_DOWN = DEBOUNCE, DEBOUNCE_UP = DEBOUNCE,
      DEBOUNCE_QUIESCE = 30\<rparr>"

text \<open>The defaults of the sparse-list engine: \<open>DEBOUNCE_UP\<close> is \<open>DEBOUNCE * 2\<close>.\<close>

definition sparse_defaults :: "nat \<Rightarrow> config" where
  "sparse_defaults cols =
     \<lparr>MATRIX_COLS = cols, DEBOUNCE_DOWN = DEBOUNCE, DEBOUNCE_UP = DEBOUNCE * 2,
      DEBOUNCE_QUIESCE = 30\<rparr>"

text \<open>The defaults of the quiescing engine (\<open>fancy.c\<close>).\<close>

definition fancy_defaults :: "nat \<Rightarrow> config" where
  "fancy_defaults cols =
     \<lparr>MATRIX_COLS = cols, DEBOUNCE_DOWN = DEBOUNCE, DEBOUNCE_UP = DEBOUNCE,
      DEBOUNCE_QUIESCE = 30\<rparr>"

text \<open>
  Modelled from the spec: \<open>timer_elapsed\<close> and \<open>TIMER_DIFF_FAST\<close> are declared in
  \<open>timer.h\<close>, which is not among the sources. The spec says that clock reads are
  unsigned and wrap, and that the delta is a modular subtraction. The clock itself
  (\<open>timer_read\<close>, \<open>timer_read_fast\<close>) is an input: every function that reads it takes
  the reading \<open>now\<close> as an argument.
\<close>

definition timer_elapsed :: "16 word \<Rightarrow> 16 word \<Rightarrow> 16 word" where
  "timer_elapsed now prev = now - prev"

definition TIMER_DIFF_FAST :: "'t::len word \<Rightarrow> 't word \<Rightarrow> 't word" where
  "TIMER_DIFF_FAST a b = a - b"


section \<open>The asymmetric per-key engine\<close>

record asym_defer_state_t =
  count :: "8 word"

text \<open>The file-scope variables \<open>last_time\<close>, \<open>state\<close> and \<open>row_counts\<close>.\<close>

record asym =
  last_time :: "16 word"
  state :: "asym_defer_state_t list"
  row_counts :: "8 word list"

text \<open>\<open>calloc\<close> zeroes both arrays; the clock is read once, here.\<close>

definition asym_debounce_init :: "config \<Rightarrow> nat \<Rightarrow> 16 word \<Rightarrow> asym" where
  "asym_debounce_init cfg num_rows now =
     \<lparr>last_time = now,
      state = replicate (num_rows * MATRIX_COLS cfg) \<lparr>count = 0\<rparr>,
      row_counts = replicate num_rows 0\<rparr>"

text \<open>
  One iteration of the column loop. The loop state is
  \<open>(cooked_row, col_mask, statep, state, row_counts)\<close>, where \<open>statep\<close> is the
  offset of the pointer \<open>statep\<close> from \<open>state\<close>; the increment part of the
  \<open>for\<close> shifts the mask and advances the pointer.
\<close>

definition asym_col ::
  "config \<Rightarrow> bool \<Rightarrow> 8 word \<Rightarrow> 'a::len word \<Rightarrow> 'a word \<Rightarrow> nat \<Rightarrow> nat \<Rightarrow>
   'a word \<times> 'a word \<times> nat \<times> asym_defer_state_t list \<times> 8 word list \<Rightarrow>
   'a word \<times> 'a word \<times> nat \<times> asym_defer_state_t list \<times> 8 word list" where
  "asym_col cfg changed elapsed raw_row delta row col =
     (\<lambda>(cooked_row, col_mask, statep, st, rc).
        if changed \<and> delta AND col_mask \<noteq> 0 then
          let new_count = (if raw_row AND col_mask \<noteq> 0 then of_nat (DEBOUNCE_DOWN cfg)
                           else of_nat (DEBOUNCE_UP cfg));
              rc' = (if 0 = count (st ! statep) then rc[row := rc ! row + 1] else rc)
          in (cooked_row, push_bit 1 col_mask, statep + 1,
              st[statep := (st ! statep)\<lparr>count := new_count\<rparr>], rc')
        else if count (st ! statep) > elapsed then
          (cooked_row, push_bit 1 col_mask, statep + 1,
           st[statep := (st ! statep)\<lparr>count := count (st ! statep) - elapsed\<rparr>], rc)
        else if count (st ! statep) \<noteq> 0 then
          ((NOT col_mask AND cooked_row) OR (col_mask AND raw_row),
           push_bit 1 col_mask, statep + 1,
           st[statep := (st ! statep)\<lparr>count := 0\<rparr>], rc[row := rc ! row - 1])
        else (cooked_row, push_bit 1 col_mask, statep + 1, st, rc))"

text \<open>
  One iteration of the row loop, on \<open>(cooked, statep, state, row_counts)\<close>: an idle
  row is skipped when nothing changed, otherwise its columns are visited with
  \<open>col_mask\<close> starting at \<open>ROW_SHIFTER\<close>.
\<close>

definition asym_row ::
  "config \<Rightarrow> 'a::len word list \<Rightarrow> bool \<Rightarrow> 8 word \<Rightarrow> nat \<Rightarrow>
   'a word list \<times> nat \<times> asym_defer_state_t list \<times> 8 word list \<Rightarrow>
   'a word list \<times> nat \<times> asym_defer_state_t list \<times> 8 word list" where
  "asym_row cfg raw changed elapsed row =
     (\<lambda>(cooked, statep, st, rc).
        if rc ! row = 0 \<and> \<not> changed then (cooked, statep + MATRIX_COLS cfg, st, rc)
        else
          let raw_row = raw ! row;
              cooked_row = cooked ! row;
              delta = raw_row XOR cooked_row
          in case fold (asym_col cfg changed elapsed raw_row delta row)
                    [0..<MATRIX_COLS cfg] (cooked_row, 1, statep, st, rc)
             of (cooked_row', col_mask', statep', st', rc') \<Rightarrow>
                  (cooked[row := cooked_row'], statep', st', rc'))"

text \<open>
  The elapsed time of a call: \<open>timer_elapsed(last_time)\<close> clamped to a byte.
  Nothing in \<open>debounce\<close> assigns \<open>last_time\<close>.
\<close>

definition asym_elapsed :: "16 word \<Rightarrow> asym \<Rightarrow> 8 word" where
  "asym_elapsed now g =
     (let elapsed16 = timer_elapsed now (last_time g)
      in if elapsed16 > 255 then 255 else ucast elapsed16)"

definition asym_debounce ::
  "config \<Rightarrow> 16 word \<Rightarrow> 'a::len word list \<Rightarrow> 'a word list \<Rightarrow> nat \<Rightarrow> bool \<Rightarrow> asym \<Rightarrow>
   'a word list \<times> asym" where
  "asym_debounce cfg now raw cooked num_rows changed g =
     (let elapsed = asym_elapsed now g
      in case fold (asym_row cfg raw changed elapsed) [0..<num_rows]
                (cooked, 0, state g, row_counts g)
         of (cooked', statep', st', rc') \<Rightarrow>
              (cooked', g\<lparr>state := st', row_counts := rc'\<rparr>))"

section \<open>The sparse active-list engine\<close>

definition DEBOUNCE_NULL :: "8 word" where
  "DEBOUNCE_NULL = 255"

record debounce_counter_t =
  remaining :: "8 word"
  "next" :: "8 word"

text \<open>
  The file-scope variables \<open>debounce_counters\<close>, \<open>debounce_list_head\<close>,
  \<open>last_time_initialized\<close> and \<open>last_time\<close>.
\<close>

record 't sparse =
  debounce_counters :: "debounce_counter_t list"
  debounce_list_head :: "8 word"
  last_time_initialized :: bool
  last_time :: 't

text \<open>
  \<open>debounce_init\<close> fills the fresh array and empties the list; it does not assign
  \<open>last_time\<close>, which keeps whatever it held.
\<close>

definition sparse_debounce_init :: "config \<Rightarrow> nat \<Rightarrow> 't sparse \<Rightarrow> 't sparse" where
  "sparse_debounce_init cfg num_rows g =
     g\<lparr>last_time_initialized := False,
       debounce_counters :=
         replicate (num_rows * MATRIX_COLS cfg) \<lparr>remaining = 0, next = DEBOUNCE_NULL\<rparr>,
       debounce_list_head := DEBOUNCE_NULL\<rparr>"

text \<open>
  \<open>get_elapsed\<close> in a build without \<open>DEBOUNCE_USE_FRAMES\<close> (with that macro the
  body is \<open>return 1\<close>). It returns the elapsed byte and the updated clock variables.
\<close>

definition sparse_get_elapsed :: "'t::len word \<Rightarrow> 't word sparse \<Rightarrow> 8 word \<times> 't word sparse" where
  "sparse_get_elapsed now g =
     (if \<not> last_time_initialized g then
        (1, g\<lparr>last_time_initialized := True, last_time := now\<rparr>)
      else
        let elapsed_time = TIMER_DIFF_FAST now (sparse.last_time g)
        in (if elapsed_time > 255 then 255 else ucast elapsed_time,
            g\<lparr>last_time := now\<rparr>))"

text \<open>
  The settle pass walks the list with \<open>p\<close> and with \<open>pp\<close>, the address of the
  variable that holds \<open>p\<close>: either \<open>&debounce_list_head\<close> or the \<open>next\<close> field of
  an entry. A store through \<open>pp\<close>:
\<close>

datatype slot = Head_slot | Next_slot "8 word"

definition store_slot ::
  "slot \<Rightarrow> 8 word \<Rightarrow> debounce_counter_t list \<times> 8 word \<Rightarrow> debounce_counter_t list \<times> 8 word" where
  "store_slot pp v = (\<lambda>(cs, head).
     case pp of
       Head_slot \<Rightarrow> (cs, v)
     | Next_slot q \<Rightarrow> (cs[unat q := (cs ! unat q)\<lparr>next := v\<rparr>], head))"

text \<open>The commit of one expired entry: the single bit of \<open>cooked\<close> takes the raw bit.\<close>

definition sparse_commit ::
  "config \<Rightarrow> 'a::len word list \<Rightarrow> 8 word \<Rightarrow> 'a word list \<Rightarrow> 'a word list" where
  "sparse_commit cfg raw p cooked =
     (let row = unat p div MATRIX_COLS cfg;
          col = unat p mod MATRIX_COLS cfg;
          col_mask = push_bit col 1;
          delta = (cooked ! row XOR raw ! row) AND col_mask
      in cooked[row := cooked ! row XOR delta])"

text \<open>The removal of entry \<open>p\<close> from the list, through \<open>pp\<close>.\<close>

definition sparse_unlink ::
  "slot \<Rightarrow> 8 word \<Rightarrow> debounce_counter_t list \<times> 8 word \<Rightarrow> debounce_counter_t list \<times> 8 word" where
  "sparse_unlink pp p = (\<lambda>(cs, head).
     case store_slot pp (next (cs ! unat p)) (cs, head) of
       (cs', head') \<Rightarrow>
         (cs'[unat p := (cs' ! unat p)\<lparr>remaining := 0, next := DEBOUNCE_NULL\<rparr>], head'))"

text \<open>
  What stops a call before it returns: the \<open>assert\<close> of the settle pass, or an index
  in the list that lies outside the array (undefined behaviour in C).
\<close>

datatype abort = Assertion_failed | Index_out_of_range

text \<open>
  The \<open>while\<close> loop of the settle pass. It needs not terminate on a cyclic list, so
  that no result is \<open>None\<close>.
\<close>

partial_function (option) sparse_settle ::
  "config \<Rightarrow> 8 word \<Rightarrow> 'a::len word list \<Rightarrow> slot \<Rightarrow> 8 word \<Rightarrow>
   'a word list \<Rightarrow> debounce_counter_t list \<times> 8 word \<Rightarrow>
   (abort + 'a word list \<times> debounce_counter_t list \<times> 8 word) option" where
  "sparse_settle cfg elapsed raw pp p cooked ch =
     (if p = DEBOUNCE_NULL then Some (Inr (cooked, ch))
      else if length (fst ch) \<le> unat p then Some (Inl Index_out_of_range)
      else if remaining (fst ch ! unat p) = 0 then Some (Inl Assertion_failed)
      else if remaining (fst ch ! unat p) > elapsed then
        sparse_settle cfg elapsed raw (Next_slot p) (next (fst ch ! unat p)) cooked
          ((fst ch)[unat p := (fst ch ! unat p)
              \<lparr>remaining := remaining (fst ch ! unat p) - elapsed\<rparr>], snd ch)
      else
        sparse_settle cfg elapsed raw pp (next (fst ch ! unat p))
          (sparse_commit cfg raw p cooked) (sparse_unlink pp p ch))"

declare sparse_settle.simps [code]

text \<open>
  One iteration of the column loop of the arm pass, on
  \<open>(p, debounce_counters, debounce_list_head)\<close> with \<open>p\<close> the offset of the pointer
  \<open>p\<close> from \<open>debounce_counters\<close>.
\<close>

definition sparse_arm_col ::
  "config \<Rightarrow> 8 word \<Rightarrow> 'a::len word \<Rightarrow> 'a word \<Rightarrow> nat \<Rightarrow>
   nat \<times> debounce_counter_t list \<times> 8 word \<Rightarrow> nat \<times> debounce_counter_t list \<times> 8 word" where
  "sparse_arm_col cfg elapsed cooked_row raw_row col =
     (\<lambda>(p, cs, head).
        let col_mask = push_bit col 1
        in if col_mask AND (cooked_row XOR raw_row) \<noteq> 0 then
             if 0 = remaining (cs ! p) then
               (p + 1,
                cs[p := \<lparr>remaining = (if col_mask AND raw_row \<noteq> 0
                                        then of_nat (DEBOUNCE_DOWN cfg)
                                        else of_nat (DEBOUNCE_UP cfg)),
                         next = head\<rparr>],
                of_nat p)
             else
               (p + 1, cs[p := (cs ! p)\<lparr>remaining := remaining (cs ! p) + elapsed\<rparr>], head)
           else (p + 1, cs, head))"

definition sparse_arm_row ::
  "config \<Rightarrow> 8 word \<Rightarrow> 'a::len word list \<Rightarrow> 'a word list \<Rightarrow> nat \<Rightarrow>
   nat \<times> debounce_counter_t list \<times> 8 word \<Rightarrow> nat \<times> debounce_counter_t list \<times> 8 word" where
  "sparse_arm_row cfg elapsed raw cooked row =
     (\<lambda>(p, cs, head).
        let cooked_row = cooked ! row;
            raw_row = raw ! row;
            delta = cooked_row XOR raw_row
        in if 0 = delta then (p + MATRIX_COLS cfg, cs, head)
           else fold (sparse_arm_col cfg elapsed cooked_row raw_row)
                  [0..<MATRIX_COLS cfg] (p, cs, head))"

definition sparse_arm ::
  "config \<Rightarrow> 8 word \<Rightarrow> 'a::len word list \<Rightarrow> 'a word list \<Rightarrow> nat \<Rightarrow>
   debounce_counter_t list \<times> 8 word \<Rightarrow> debounce_counter_t list \<times> 8 word" where
  "sparse_arm cfg elapsed raw cooked num_rows = (\<lambda>(cs, head).
     snd (fold (sparse_arm_row cfg elapsed raw cooked) [0..<num_rows] (0, cs, head)))"

definition sparse_debounce ::
  "config \<Rightarrow> 't::len word \<Rightarrow> 'a::len word list \<Rightarrow> 'a word list \<Rightarrow> nat \<Rightarrow> bool \<Rightarrow>
   't word sparse \<Rightarrow> (abort + 'a word list \<times> 't word sparse) option" where
  "sparse_debounce cfg now raw cooked num_rows changed g =
     (case sparse_get_elapsed now g of (elapsed, g1) \<Rightarrow>
        case sparse_settle cfg elapsed raw Head_slot (debounce_list_head g1) cooked
               (debounce_counters g1, debounce_list_head g1) of
          None \<Rightarrow> None
        | Some (Inl a) \<Rightarrow> Some (Inl a)
        | Some (Inr (cooked', ch)) \<Rightarrow>
            (case (if changed then sparse_arm cfg elapsed raw cooked' num_rows ch else ch) of
               (cs, head) \<Rightarrow>
                 Some (Inr (cooked',
                   g1\<lparr>debounce_counters := cs, debounce_list_head := head\<rparr>))))"


section \<open>The quiescing engine\<close>

datatype key_state = WAITING | DEBOUNCING | QUIESCING

record key_state_t =
  state :: key_state
  remaining :: "8 word"

text \<open>
  The file-scope variables \<open>key_states\<close>, \<open>last_time_initialized\<close>, \<open>last_time\<close>
  and \<open>first_time\<close>.
\<close>

record 't fancy =
  key_states :: "key_state_t list"
  last_time_initialized :: bool
  last_time :: 't
  first_time :: 't

text \<open>
  \<open>debounce_init\<close> takes the array from \<open>malloc\<close> and assigns only the \<open>state\<close>
  fields: \<open>uninit\<close> stands for the bytes that the \<open>remaining\<close> fields hold.
\<close>

definition fancy_debounce_init ::
  "config \<Rightarrow> nat \<Rightarrow> (nat \<Rightarrow> 8 word) \<Rightarrow> 't fancy \<Rightarrow> 't fancy" where
  "fancy_debounce_init cfg num_rows uninit g =
     g\<lparr>fancy.last_time_initialized := False,
       key_states :=
         map (\<lambda>i. \<lparr>state = WAITING, remaining = uninit i\<rparr>) [0..<num_rows * MATRIX_COLS cfg]\<rparr>"

definition fancy_get_elapsed :: "'t::len word \<Rightarrow> 't word fancy \<Rightarrow> 8 word \<times> 't word fancy" where
  "fancy_get_elapsed now g =
     (if \<not> fancy.last_time_initialized g then
        (1, g\<lparr>fancy.last_time_initialized := True, fancy.last_time := now, first_time := now\<rparr>)
      else
        let elapsed_time = TIMER_DIFF_FAST now (fancy.last_time g)
        in (if elapsed_time > 255 then 255 else ucast elapsed_time,
            g\<lparr>fancy.last_time := now\<rparr>))"

text \<open>
  One iteration of the column loop, on \<open>(cooked_row, col_mask, p, key_states)\<close>.
  In the \<open>WAITING\<close> case the source chooses the window by \<open>raw & col_mask\<close>, where
  \<open>raw\<close> is the array parameter and not \<open>raw_row\<close>: \<open>raw_addr\<close> stands for the
  address that \<open>raw\<close> holds, as a \<open>matrix_row_t\<close>. The \<open>printf\<close> calls only write
  to the console.
\<close>

definition fancy_col ::
  "config \<Rightarrow> 8 word \<Rightarrow> 'a::len word \<Rightarrow> 'a word \<Rightarrow> nat \<Rightarrow>
   'a word \<times> 'a word \<times> nat \<times> key_state_t list \<Rightarrow>
   'a word \<times> 'a word \<times> nat \<times> key_state_t list" where
  "fancy_col cfg elapsed raw_addr delta col =
     (\<lambda>(cooked_row, col_mask, p, ks).
        case state (ks ! p) of
          WAITING \<Rightarrow>
            if delta AND col_mask \<noteq> 0 then
              (cooked_row, push_bit 1 col_mask, p + 1,
               ks[p := (ks ! p)\<lparr>state := DEBOUNCING,
                        remaining := (if raw_addr AND col_mask \<noteq> 0
                                      then of_nat (DEBOUNCE_DOWN cfg)
                                      else of_nat (DEBOUNCE_UP cfg))\<rparr>])
            else (cooked_row, push_bit 1 col_mask, p + 1, ks)
        | DEBOUNCING \<Rightarrow>
            if 0 = delta AND col_mask then
              (cooked_row, push_bit 1 col_mask, p + 1, ks[p := (ks ! p)\<lparr>state := WAITING\<rparr>])
            else if key_state_t.remaining (ks ! p) > elapsed then
              (cooked_row, push_bit 1 col_mask, p + 1,
               ks[p := (ks ! p)\<lparr>remaining := key_state_t.remaining (ks ! p) - elapsed\<rparr>])
            else
              (cooked_row XOR col_mask, push_bit 1 col_mask, p + 1,
               ks[p := (ks ! p)\<lparr>state := QUIESCING,
                        remaining := of_nat (DEBOUNCE_QUIESCE cfg)\<rparr>])
        | QUIESCING \<Rightarrow>
            if key_state_t.remaining (ks ! p) > elapsed then
              (cooked_row, push_bit 1 col_mask, p + 1,
               ks[p := (ks ! p)\<lparr>remaining := key_state_t.remaining (ks ! p) - elapsed\<rparr>])
            else
              (cooked_row, push_bit 1 col_mask, p + 1, ks[p := (ks ! p)\<lparr>state := WAITING\<rparr>]))"

definition fancy_row ::
  "config \<Rightarrow> 8 word \<Rightarrow> 'a::len word \<Rightarrow> 'a word list \<Rightarrow> nat \<Rightarrow>
   'a word list \<times> nat \<times> key_state_t list \<Rightarrow> 'a word list \<times> nat \<times> key_state_t list" where
  "fancy_row cfg elapsed raw_addr raw r =
     (\<lambda>(cooked, p, ks).
        let raw_row = raw ! r;
            cooked_row = cooked ! r;
            delta = cooked_row XOR raw_row
        in case fold (fancy_col cfg elapsed raw_addr delta) [0..<MATRIX_COLS cfg]
                  (cooked_row, 1, p, ks)
           of (cooked_row', col_mask', p', ks') \<Rightarrow> (cooked[r := cooked_row'], p', ks'))"

definition fancy_debounce ::
  "config \<Rightarrow> 't::len word \<Rightarrow> 'a::len word \<Rightarrow> 'a word list \<Rightarrow> 'a word list \<Rightarrow> nat \<Rightarrow> bool \<Rightarrow>
   't word fancy \<Rightarrow> 'a word list \<times> 't word fancy" where
  "fancy_debounce cfg now raw_addr raw cooked num_rows changed g =
     (case fancy_get_elapsed now g of (elapsed, g1) \<Rightarrow>
        case fold (fancy_row cfg elapsed raw_addr raw) [0..<num_rows] (cooked, 0, key_states g1)
        of (cooked', p', ks') \<Rightarrow> (cooked', g1\<lparr>key_states := ks'\<rparr>))"


section \<open>Cells, invariants and the scan loop\<close>

text \<open>
  The definitions from here on are not translations of source functions: they state
  what the source functions above are proved to do. First, the number of cells of a
  row whose \<open>count\<close> is not zero.
\<close>

definition active_in_row :: "config \<Rightarrow> asym_defer_state_t list \<Rightarrow> nat \<Rightarrow> nat" where
  "active_in_row cfg st row =
     length (filter (\<lambda>s. count s \<noteq> 0)
       (take (MATRIX_COLS cfg) (drop (row * MATRIX_COLS cfg) st)))"

text \<open>Windows that are not zero and fit the counter byte.\<close>

definition window_ok :: "config \<Rightarrow> bool" where
  "window_ok cfg \<longleftrightarrow>
     0 < DEBOUNCE_DOWN cfg \<and> DEBOUNCE_DOWN cfg < 256 \<and>
     0 < DEBOUNCE_UP cfg \<and> DEBOUNCE_UP cfg < 256"

text \<open>
  What one call of the asymmetric engine does to one cell, on the pair of its cooked
  bit and its \<open>count\<close>: the three branches of the column loop. Lemma
  \<open>asym_debounce_cells\<close> proves that \<open>asym_debounce\<close> moves every cell as this
  function says.
\<close>

definition asym_cell :: "config \<Rightarrow> bool \<Rightarrow> 8 word \<Rightarrow> bool \<Rightarrow> bool \<times> 8 word \<Rightarrow> bool \<times> 8 word" where
  "asym_cell cfg changed elapsed raw_bit = (\<lambda>(cooked_bit, cnt).
     if changed \<and> raw_bit \<noteq> cooked_bit then
       (cooked_bit, if raw_bit then of_nat (DEBOUNCE_DOWN cfg) else of_nat (DEBOUNCE_UP cfg))
     else if cnt > elapsed then (cooked_bit, cnt - elapsed)
     else if cnt \<noteq> 0 then (raw_bit, 0)
     else (cooked_bit, cnt))"

text \<open>The invariant of the column loop of the asymmetric engine, after \<open>k\<close> columns.\<close>

definition asym_col_inv ::
  "config \<Rightarrow> bool \<Rightarrow> 8 word \<Rightarrow> 'a::len word \<Rightarrow> nat \<Rightarrow> 'a word \<Rightarrow>
   asym_defer_state_t list \<Rightarrow> 8 word list \<Rightarrow> nat \<Rightarrow>
   'a word \<times> 'a word \<times> nat \<times> asym_defer_state_t list \<times> 8 word list \<Rightarrow> bool" where
  "asym_col_inv cfg changed e raw_row row cr0 st0 rc0 k = (\<lambda>(cr, m, sp, st, rc).
     m = 2 ^ k \<and> sp = row * MATRIX_COLS cfg + k \<and>
     length st = length st0 \<and> length rc = length rc0 \<and>
     (\<forall>c<k. (bit cr c, count (st ! (row * MATRIX_COLS cfg + c))) =
        asym_cell cfg changed e (bit raw_row c)
          (bit cr0 c, count (st0 ! (row * MATRIX_COLS cfg + c)))) \<and>
     (\<forall>c\<ge>k. bit cr c = bit cr0 c) \<and>
     (\<forall>j. j < row * MATRIX_COLS cfg \<or> row * MATRIX_COLS cfg + k \<le> j \<longrightarrow> st ! j = st0 ! j) \<and>
     (\<forall>r. r \<noteq> row \<longrightarrow> rc ! r = rc0 ! r) \<and>
     unat (rc ! row) = active_in_row cfg st row)"

text \<open>
  A well-formed state of the asymmetric engine: the arrays have the sizes that
  \<open>debounce_init\<close> gave them, and every row count is exact.
\<close>

definition asym_inv :: "config \<Rightarrow> nat \<Rightarrow> asym \<Rightarrow> bool" where
  "asym_inv cfg num_rows g \<longleftrightarrow>
     length (asym.state g) = num_rows * MATRIX_COLS cfg \<and>
     length (row_counts g) = num_rows \<and>
     (\<forall>row<num_rows. unat (row_counts g ! row) = active_in_row cfg (asym.state g) row)"

text \<open>The invariant of the row loop of the asymmetric engine, after \<open>k\<close> rows.\<close>

definition asym_row_inv ::
  "config \<Rightarrow> bool \<Rightarrow> 8 word \<Rightarrow> 'a::len word list \<Rightarrow> 'a word list \<Rightarrow>
   asym_defer_state_t list \<Rightarrow> 8 word list \<Rightarrow> nat \<Rightarrow>
   'a word list \<times> nat \<times> asym_defer_state_t list \<times> 8 word list \<Rightarrow> bool" where
  "asym_row_inv cfg changed e raw cooked0 st0 rc0 k = (\<lambda>(cooked, sp, st, rc).
     sp = k * MATRIX_COLS cfg \<and>
     length st = length st0 \<and> length rc = length rc0 \<and> length cooked = length cooked0 \<and>
     (\<forall>row<k. \<forall>c<MATRIX_COLS cfg.
        (bit (cooked ! row) c, count (st ! (row * MATRIX_COLS cfg + c))) =
        asym_cell cfg changed e (bit (raw ! row) c)
          (bit (cooked0 ! row) c, count (st0 ! (row * MATRIX_COLS cfg + c)))) \<and>
     (\<forall>row<k. \<forall>c\<ge>MATRIX_COLS cfg. bit (cooked ! row) c = bit (cooked0 ! row) c) \<and>
     (\<forall>row\<ge>k. cooked ! row = cooked0 ! row) \<and>
     (\<forall>j\<ge>k * MATRIX_COLS cfg. st ! j = st0 ! j) \<and>
     (\<forall>row<length rc0. unat (rc ! row) = active_in_row cfg st row))"

text \<open>
  What one call of the quiescing engine does to one cell, on the pair of its cooked
  bit and its \<open>key_state_t\<close>: the \<open>switch\<close> of the column loop, with \<open>addr_bit\<close> the
  bit of the address of \<open>raw\<close> that the \<open>WAITING\<close> case tests. Lemma
  \<open>fancy_debounce_cells\<close> proves that \<open>fancy_debounce\<close> moves every cell as this
  function says.
\<close>

definition fancy_cell ::
  "config \<Rightarrow> 8 word \<Rightarrow> bool \<Rightarrow> bool \<Rightarrow> bool \<times> key_state_t \<Rightarrow> bool \<times> key_state_t" where
  "fancy_cell cfg elapsed addr_bit raw_bit = (\<lambda>(cooked_bit, k).
     case state k of
       WAITING \<Rightarrow>
         if raw_bit \<noteq> cooked_bit then
           (cooked_bit, k\<lparr>state := DEBOUNCING,
              remaining := (if addr_bit then of_nat (DEBOUNCE_DOWN cfg)
                            else of_nat (DEBOUNCE_UP cfg))\<rparr>)
         else (cooked_bit, k)
     | DEBOUNCING \<Rightarrow>
         if raw_bit = cooked_bit then (cooked_bit, k\<lparr>state := WAITING\<rparr>)
         else if key_state_t.remaining k > elapsed then
           (cooked_bit, k\<lparr>remaining := key_state_t.remaining k - elapsed\<rparr>)
         else (\<not> cooked_bit, k\<lparr>state := QUIESCING, remaining := of_nat (DEBOUNCE_QUIESCE cfg)\<rparr>)
     | QUIESCING \<Rightarrow>
         if key_state_t.remaining k > elapsed then
           (cooked_bit, k\<lparr>remaining := key_state_t.remaining k - elapsed\<rparr>)
         else (cooked_bit, k\<lparr>state := WAITING\<rparr>))"

text \<open>The invariants of the column loop and of the row loop of the quiescing engine.\<close>

definition fancy_col_inv ::
  "config \<Rightarrow> 8 word \<Rightarrow> 'a::len word \<Rightarrow> 'a word \<Rightarrow> nat \<Rightarrow> 'a word \<Rightarrow> key_state_t list \<Rightarrow> nat \<Rightarrow>
   'a word \<times> 'a word \<times> nat \<times> key_state_t list \<Rightarrow> bool" where
  "fancy_col_inv cfg e raw_addr raw_row r cr0 ks0 k = (\<lambda>(cr, m, p, ks).
     m = 2 ^ k \<and> p = r * MATRIX_COLS cfg + k \<and> length ks = length ks0 \<and>
     (\<forall>c<k. (bit cr c, ks ! (r * MATRIX_COLS cfg + c)) =
        fancy_cell cfg e (bit raw_addr c) (bit raw_row c)
          (bit cr0 c, ks0 ! (r * MATRIX_COLS cfg + c))) \<and>
     (\<forall>c\<ge>k. bit cr c = bit cr0 c) \<and>
     (\<forall>j. j < r * MATRIX_COLS cfg \<or> r * MATRIX_COLS cfg + k \<le> j \<longrightarrow> ks ! j = ks0 ! j))"

definition fancy_row_inv ::
  "config \<Rightarrow> 8 word \<Rightarrow> 'a::len word \<Rightarrow> 'a word list \<Rightarrow> 'a word list \<Rightarrow> key_state_t list \<Rightarrow> nat \<Rightarrow>
   'a word list \<times> nat \<times> key_state_t list \<Rightarrow> bool" where
  "fancy_row_inv cfg e raw_addr raw cooked0 ks0 k = (\<lambda>(cooked, p, ks).
     p = k * MATRIX_COLS cfg \<and> length ks = length ks0 \<and> length cooked = length cooked0 \<and>
     (\<forall>r<k. \<forall>c<MATRIX_COLS cfg.
        (bit (cooked ! r) c, ks ! (r * MATRIX_COLS cfg + c)) =
        fancy_cell cfg e (bit raw_addr c) (bit (raw ! r) c)
          (bit (cooked0 ! r) c, ks0 ! (r * MATRIX_COLS cfg + c))) \<and>
     (\<forall>r<k. \<forall>c\<ge>MATRIX_COLS cfg. bit (cooked ! r) c = bit (cooked0 ! r) c) \<and>
     (\<forall>r\<ge>k. cooked ! r = cooked0 ! r) \<and>
     (\<forall>j\<ge>k * MATRIX_COLS cfg. ks ! j = ks0 ! j))"

text \<open>
  The list that starts at pointer \<open>p\<close> visits the cells \<open>ps\<close>, in this order, and
  ends with \<open>DEBOUNCE_NULL\<close>.
\<close>

fun sparse_chain :: "debounce_counter_t list \<Rightarrow> 8 word \<Rightarrow> nat list \<Rightarrow> bool" where
  "sparse_chain cs p [] \<longleftrightarrow> p = DEBOUNCE_NULL"
| "sparse_chain cs p (q # qs) \<longleftrightarrow>
     p \<noteq> DEBOUNCE_NULL \<and> unat p = q \<and> q < length cs \<and> sparse_chain cs (next (cs ! q)) qs"

text \<open>The pointer that a slot holds, and the entry whose \<open>next\<close> field a slot is.\<close>

definition load_slot :: "slot \<Rightarrow> debounce_counter_t list \<times> 8 word \<Rightarrow> 8 word" where
  "load_slot pp = (\<lambda>(cs, head).
     case pp of Head_slot \<Rightarrow> head | Next_slot q \<Rightarrow> next (cs ! unat q))"

definition slot_index :: "slot \<Rightarrow> nat option" where
  "slot_index pp = (case pp of Head_slot \<Rightarrow> None | Next_slot q \<Rightarrow> Some (unat q))"

text \<open>
  What the settle pass has done when it returns, started at the slot \<open>pp\<close> with the
  cells \<open>ps\<close> ahead: the entries above the elapsed delta stay linked, in order, with
  the delta subtracted; the others are zeroed and unlinked, and their cooked bits
  have the raw bits.
\<close>

definition settle_post ::
  "config \<Rightarrow> 8 word \<Rightarrow> 'a::len word list \<Rightarrow> slot \<Rightarrow> nat list \<Rightarrow> 'a word list \<Rightarrow>
   debounce_counter_t list \<Rightarrow> 8 word \<Rightarrow> 'a word list \<times> debounce_counter_t list \<times> 8 word \<Rightarrow> bool" where
  "settle_post cfg e raw pp ps cooked cs head = (\<lambda>(cooked', cs', head').
     length cs' = length cs \<and> length cooked' = length cooked \<and>
     sparse_chain cs' (load_slot pp (cs', head')) (filter (\<lambda>q. debounce_counter_t.remaining (cs ! q) > e) ps) \<and>
     (pp \<noteq> Head_slot \<longrightarrow> head' = head) \<and>
     (\<forall>j. j \<notin> set ps \<longrightarrow>
        debounce_counter_t.remaining (cs' ! j) = debounce_counter_t.remaining (cs ! j) \<and>
        (slot_index pp \<noteq> Some j \<longrightarrow> next (cs' ! j) = next (cs ! j))) \<and>
     (\<forall>q\<in>set ps. debounce_counter_t.remaining (cs' ! q) =
        (if debounce_counter_t.remaining (cs ! q) > e then debounce_counter_t.remaining (cs ! q) - e else 0)) \<and>
     (\<forall>r<length cooked. \<forall>c. bit (cooked' ! r) c =
        (if c < MATRIX_COLS cfg \<and> r * MATRIX_COLS cfg + c \<in> set ps \<and>
            \<not> debounce_counter_t.remaining (cs ! (r * MATRIX_COLS cfg + c)) > e
         then bit (raw ! r) c else bit (cooked ! r) c)))"

text \<open>What the arm pass does to the counter of one cell.\<close>

definition sparse_arm_cell :: "config \<Rightarrow> 8 word \<Rightarrow> bool \<Rightarrow> bool \<Rightarrow> 8 word \<Rightarrow> 8 word" where
  "sparse_arm_cell cfg elapsed raw_bit cooked_bit rem =
     (if raw_bit \<noteq> cooked_bit then
        if rem = 0 then (if raw_bit then of_nat (DEBOUNCE_DOWN cfg) else of_nat (DEBOUNCE_UP cfg))
        else rem + elapsed
      else rem)"

text \<open>The list holds each cell whose counter is not zero once, and no other cell.\<close>

definition sparse_listed :: "debounce_counter_t list \<Rightarrow> 8 word \<Rightarrow> bool" where
  "sparse_listed cs head \<longleftrightarrow>
     (\<exists>ps. sparse_chain cs head ps \<and> distinct ps \<and>
        (\<forall>i<length cs. i \<in> set ps \<longleftrightarrow> debounce_counter_t.remaining (cs ! i) \<noteq> 0))"

text \<open>The invariant of the arm pass, after \<open>k\<close> cells.\<close>

definition arm_inv ::
  "config \<Rightarrow> 8 word \<Rightarrow> 'a::len word list \<Rightarrow> 'a word list \<Rightarrow> debounce_counter_t list \<Rightarrow> nat \<Rightarrow>
   nat \<times> debounce_counter_t list \<times> 8 word \<Rightarrow> bool" where
  "arm_inv cfg e raw cooked cs0 k = (\<lambda>(p, cs, head).
     p = k \<and> length cs = length cs0 \<and> sparse_listed cs head \<and>
     (\<forall>j<k. debounce_counter_t.remaining (cs ! j) =
        sparse_arm_cell cfg e (bit (raw ! (j div MATRIX_COLS cfg)) (j mod MATRIX_COLS cfg))
          (bit (cooked ! (j div MATRIX_COLS cfg)) (j mod MATRIX_COLS cfg))
          (debounce_counter_t.remaining (cs0 ! j))) \<and>
     (\<forall>j\<ge>k. debounce_counter_t.remaining (cs ! j) = debounce_counter_t.remaining (cs0 ! j)))"

text \<open>
  A well-formed state of the sparse-list engine: the array has the size that
  \<open>debounce_init\<close> gave it, fewer than 255 cells (the \<open>#error\<close> guard), and the list
  holds the cells that count.
\<close>

definition sparse_inv :: "config \<Rightarrow> nat \<Rightarrow> 't sparse \<Rightarrow> bool" where
  "sparse_inv cfg num_rows g \<longleftrightarrow>
     length (debounce_counters g) = num_rows * MATRIX_COLS cfg \<and>
     num_rows * MATRIX_COLS cfg < 255 \<and>
     sparse_listed (debounce_counters g) (debounce_list_head g)"

text \<open>
  What one call of the sparse-list engine does to one cell, on the pair of its cooked
  bit and its \<open>remaining\<close>: the settle pass, then the arm pass when \<open>changed\<close> is
  set. Lemma \<open>sparse_debounce_cells\<close> proves that \<open>sparse_debounce\<close> returns and
  moves every cell as this function says.
\<close>

definition sparse_cell :: "config \<Rightarrow> bool \<Rightarrow> 8 word \<Rightarrow> bool \<Rightarrow> bool \<times> 8 word \<Rightarrow> bool \<times> 8 word" where
  "sparse_cell cfg changed elapsed raw_bit = (\<lambda>(cooked_bit, rem).
     case (if rem = 0 then (cooked_bit, rem)
           else if rem > elapsed then (cooked_bit, rem - elapsed)
           else (raw_bit, 0))
     of (cooked_bit', rem') \<Rightarrow>
       (cooked_bit',
        if changed then sparse_arm_cell cfg elapsed raw_bit cooked_bit' rem' else rem'))"

text \<open>What a call of the sparse-list engine has done when it returns.\<close>

definition sparse_call_post ::
  "config \<Rightarrow> nat \<Rightarrow> 't::len word \<Rightarrow> 'a::len word list \<Rightarrow> bool \<Rightarrow> 'a word list \<Rightarrow>
   't word sparse \<Rightarrow> 'a word list \<times> 't word sparse \<Rightarrow> bool" where
  "sparse_call_post cfg num_rows now raw changed cooked g = (\<lambda>(cooked', g').
     sparse_inv cfg num_rows g' \<and> length cooked' = length cooked \<and>
     sparse.last_time_initialized g' \<and> sparse.last_time g' = now \<and>
     (\<forall>r<num_rows. \<forall>c<MATRIX_COLS cfg.
        (bit (cooked' ! r) c,
         debounce_counter_t.remaining (debounce_counters g' ! (r * MATRIX_COLS cfg + c))) =
        sparse_cell cfg changed (fst (sparse_get_elapsed now g)) (bit (raw ! r) c)
          (bit (cooked ! r) c,
           debounce_counter_t.remaining (debounce_counters g ! (r * MATRIX_COLS cfg + c)))) \<and>
     (\<forall>r<num_rows. \<forall>c\<ge>MATRIX_COLS cfg. bit (cooked' ! r) c = bit (cooked ! r) c) \<and>
     (\<forall>r. num_rows \<le> r \<and> r < length cooked \<longrightarrow> cooked' ! r = cooked ! r))"

text \<open>
  The scan loop of the caller: one call of \<open>debounce\<close> per scan, each on the
  cooked matrix that the previous call left. \<open>scan_trace\<close> lists the states after
  each call.
\<close>

fun scan_trace :: "('c \<Rightarrow> 's \<Rightarrow> 's) \<Rightarrow> 'c list \<Rightarrow> 's \<Rightarrow> 's list" where
  "scan_trace step [] s = []"
| "scan_trace step (c # cs) s = step c s # scan_trace step cs (step c s)"

text \<open>
  For each engine: a call as a step on the pair of the cooked matrix and the
  file-scope variables, the well-formed states, and the view of one cell (its cooked
  bit and its counter or \<open>key_state_t\<close>).
\<close>

definition asym_scan ::
  "config \<Rightarrow> nat \<Rightarrow> 16 word \<times> 'a::len word list \<times> bool \<Rightarrow> 'a word list \<times> asym \<Rightarrow>
   'a word list \<times> asym" where
  "asym_scan cfg num_rows = (\<lambda>(now, raw, changed) (cooked, g).
     asym_debounce cfg now raw cooked num_rows changed g)"

definition asym_view :: "config \<Rightarrow> nat \<Rightarrow> nat \<Rightarrow> 'a::len word list \<times> asym \<Rightarrow> bool \<times> 8 word" where
  "asym_view cfg row col = (\<lambda>(cooked, g).
     (bit (cooked ! row) col, count (asym.state g ! (row * MATRIX_COLS cfg + col))))"

definition asym_ok :: "config \<Rightarrow> nat \<Rightarrow> 'a::len word list \<times> asym \<Rightarrow> bool" where
  "asym_ok cfg num_rows = (\<lambda>(cooked, g). asym_inv cfg num_rows g \<and> num_rows \<le> length cooked)"

text \<open>Reachability from a list pointer through the \<open>next\<close> fields.\<close>

inductive sparse_reach :: "debounce_counter_t list \<Rightarrow> 8 word \<Rightarrow> nat \<Rightarrow> bool"
  for cs :: "debounce_counter_t list" where
  reach_here: "p \<noteq> DEBOUNCE_NULL \<Longrightarrow> unat p < length cs \<Longrightarrow> unat p = i \<Longrightarrow> sparse_reach cs p i"
| reach_next: "p \<noteq> DEBOUNCE_NULL \<Longrightarrow> unat p < length cs \<Longrightarrow>
     sparse_reach cs (next (cs ! unat p)) i \<Longrightarrow> sparse_reach cs p i"

code_pred sparse_reach .

definition sparse_scan ::
  "config \<Rightarrow> nat \<Rightarrow> 't::len word \<times> 'a::len word list \<times> bool \<Rightarrow>
   (abort + 'a word list \<times> 't word sparse) option \<Rightarrow>
   (abort + 'a word list \<times> 't word sparse) option" where
  "sparse_scan cfg num_rows = (\<lambda>(now, raw, changed) r.
     case r of
       Some (Inr (cooked, g)) \<Rightarrow> sparse_debounce cfg now raw cooked num_rows changed g
     | _ \<Rightarrow> r)"

definition sparse_ok ::
  "config \<Rightarrow> nat \<Rightarrow> (abort + 'a::len word list \<times> 't sparse) option \<Rightarrow> bool" where
  "sparse_ok cfg num_rows r =
     (case r of
        Some (Inr (cooked, g)) \<Rightarrow> sparse_inv cfg num_rows g \<and> num_rows \<le> length cooked
      | _ \<Rightarrow> False)"

definition sparse_view ::
  "config \<Rightarrow> nat \<Rightarrow> nat \<Rightarrow> (abort + 'a::len word list \<times> 't sparse) option \<Rightarrow>
   (bool \<times> 8 word) option" where
  "sparse_view cfg row col r =
     (case r of
        Some (Inr (cooked, g)) \<Rightarrow>
          Some (bit (cooked ! row) col,
                debounce_counter_t.remaining (debounce_counters g ! (row * MATRIX_COLS cfg + col)))
      | _ \<Rightarrow> None)"

definition fancy_scan ::
  "config \<Rightarrow> nat \<Rightarrow> 't::len word \<times> 'a::len word \<times> 'a word list \<times> bool \<Rightarrow>
   'a word list \<times> 't word fancy \<Rightarrow> 'a word list \<times> 't word fancy" where
  "fancy_scan cfg num_rows = (\<lambda>(now, raw_addr, raw, changed) (cooked, g).
     fancy_debounce cfg now raw_addr raw cooked num_rows changed g)"

definition fancy_ok :: "config \<Rightarrow> nat \<Rightarrow> 'a::len word list \<times> 't fancy \<Rightarrow> bool" where
  "fancy_ok cfg num_rows = (\<lambda>(cooked, g).
     length (key_states g) = num_rows * MATRIX_COLS cfg \<and> num_rows \<le> length cooked)"

definition fancy_view :: "config \<Rightarrow> nat \<Rightarrow> nat \<Rightarrow> 'a::len word list \<times> 't fancy \<Rightarrow> bool \<times> key_state_t" where
  "fancy_view cfg row col = (\<lambda>(cooked, g).
     (bit (cooked ! row) col, key_states g ! (row * MATRIX_COLS cfg + col)))"

text \<open>The elapsed delta that a call at reading \<open>now\<close> computes on a state.\<close>

definition sparse_elapsed_of ::
  "'t::len word \<Rightarrow> (abort + 'a::len word list \<times> 't word sparse) option \<Rightarrow> 8 word" where
  "sparse_elapsed_of now r =
     (case r of Some (Inr (cooked, g)) \<Rightarrow> fst (sparse_get_elapsed now g) | _ \<Rightarrow> 0)"

text \<open>
  A whole matrix that is settled on a raw matrix: every cell has its cooked bit at the
  raw bit and is idle.
\<close>

definition asym_settled ::
  "config \<Rightarrow> nat \<Rightarrow> 'a::len word list \<Rightarrow> 'a word list \<times> asym \<Rightarrow> bool" where
  "asym_settled cfg num_rows raw s \<longleftrightarrow>
     (\<forall>row<num_rows. \<forall>col<MATRIX_COLS cfg.
        asym_view cfg row col s = (bit (raw ! row) col, 0))"

definition sparse_settled ::
  "config \<Rightarrow> nat \<Rightarrow> 'a::len word list \<Rightarrow> (abort + 'a word list \<times> 't sparse) option \<Rightarrow> bool" where
  "sparse_settled cfg num_rows raw r \<longleftrightarrow>
     (\<forall>row<num_rows. \<forall>col<MATRIX_COLS cfg.
        sparse_view cfg row col r = Some (bit (raw ! row) col, 0))"

definition fancy_settled ::
  "config \<Rightarrow> nat \<Rightarrow> 'a::len word list \<Rightarrow> 'a word list \<times> 't fancy \<Rightarrow> bool" where
  "fancy_settled cfg num_rows raw s \<longleftrightarrow>
     (\<forall>row<num_rows. \<forall>col<MATRIX_COLS cfg.
        fst (fancy_view cfg row col s) = bit (raw ! row) col \<and>
        state (snd (fancy_view cfg row col s)) = WAITING)"

definition sparse_cooked ::
  "(abort + 'a::len word list \<times> 't sparse) option \<Rightarrow> 'a word list option" where
  "sparse_cooked r = (case r of Some (Inr (cooked, g)) \<Rightarrow> Some cooked | _ \<Rightarrow> None)"

text \<open>
  The elapsed deltas that the calls of a scan sequence compute, each on the state that
  the calls before it have left.
\<close>

fun scan_elapsed :: "('c \<Rightarrow> 's \<Rightarrow> 'e) \<Rightarrow> ('c \<Rightarrow> 's \<Rightarrow> 's) \<Rightarrow> 'c list \<Rightarrow> 's \<Rightarrow> 'e list" where
  "scan_elapsed el step [] s = []"
| "scan_elapsed el step (c # cs) s = el c s # scan_elapsed el step cs (step c s)"

definition sparse_call_elapsed ::
  "'t::len word \<times> 'a::len word list \<times> bool \<Rightarrow>
   (abort + 'a word list \<times> 't word sparse) option \<Rightarrow> 8 word" where
  "sparse_call_elapsed c r = sparse_elapsed_of (fst c) r"


definition asym_call_elapsed ::
  "16 word \<times> 'a::len word list \<times> bool \<Rightarrow> 'a word list \<times> asym \<Rightarrow> 8 word" where
  "asym_call_elapsed c s = asym_elapsed (fst c) (snd s)"



section \<open>What a call does to each cell\<close>

lemma bit_copy: "bit ((NOT (push_bit k 1) AND c) OR (push_bit k 1 AND r)) j = (if j = k then bit r k else bit c j)"
  for c :: "'a::len word"
  by (auto simp add: bit_simps dest: bit_imp_le_length)

lemma bit_xor_delta: "bit (c XOR ((c XOR r) AND push_bit k 1)) j = (if j = k then bit r k else bit c j)"
  for c :: "'a::len word"
  by (auto simp add: bit_simps dest: bit_imp_le_length)

lemma bit_flip: "bit (c XOR push_bit k 1) j = (if j = k \<and> k < LENGTH('a) then \<not> bit c j else bit c j)"
  for c :: "'a::len word"
  by (auto simp add: bit_simps dest: bit_imp_le_length)

lemma filter_update_count:
  "c < length xs \<Longrightarrow>
   length (filter P (xs[c := v])) + (if P (xs ! c) then 1 else 0) =
   length (filter P xs) + (if P v then 1 else 0)"
proof (induction xs arbitrary: c)
  case Nil
  then show ?case by simp
next
  case (Cons x xs)
  then show ?case by (cases c) auto
qed

lemma u8_succ: "unat x < 255 \<Longrightarrow> unat (x + 1) = Suc (unat x)" for x :: "8 word"
  by (simp add: unat_word_ariths)

lemma u8_pred: "x \<noteq> 0 \<Longrightarrow> unat (x - 1) = unat x - 1" for x :: "8 word"
  by (simp add: unat_minus_one)

lemma u8_sub: "e < x \<Longrightarrow> unat (x - e) = unat x - unat e" for x :: "8 word"
  by (simp add: unat_sub word_less_nat_alt less_imp_le)

lemma mask_test2: "(w AND 2 ^ k \<noteq> 0) = bit w k" for w :: "'a::len word"
  by (simp add: and_exp_eq_0_iff_not_bit)

lemma mask_test2': "(2 ^ k AND w \<noteq> 0) = bit w k" for w :: "'a::len word"
  using mask_test2 [of w k] by (simp add: and.commute)

lemma mask_test20: "(0 = w AND 2 ^ k) = (\<not> bit w k)" for w :: "'a::len word"
  using mask_test2 [of w k] by auto

lemma bit_copy2: "bit ((NOT (2 ^ k) AND c) OR (2 ^ k AND r)) j = (if j = k then bit r k else bit c j)"
  for c :: "'a::len word"
  using bit_copy [of k c r j] by simp

lemma bit_xor_delta2: "bit (c XOR ((c XOR r) AND 2 ^ k)) j = (if j = k then bit r k else bit c j)"
  for c :: "'a::len word"
  using bit_xor_delta [of c r k j] by simp

lemma bit_flip2: "bit (c XOR 2 ^ k) j = (if j = k \<and> k < LENGTH('a) then \<not> bit c j else bit c j)"
  for c :: "'a::len word"
  using bit_flip [of c k j] by simp

text \<open>Cells are addressed by \<open>row * MATRIX_COLS + col\<close>.\<close>

lemma cell_index_less: "r < R \<Longrightarrow> c < n \<Longrightarrow> r * n + c < R * (n::nat)"
proof -
  assume a: "r < R" "c < n"
  then have "r * n + c < Suc r * n" by simp
  also from a have "Suc r * n \<le> R * n" by (intro mult_le_mono1) simp
  finally show ?thesis .
qed

lemma row_before: "r < r' \<Longrightarrow> r * n + n \<le> r' * (n::nat)"
proof -
  assume "r < r'"
  then have "Suc r * n \<le> r' * n" by (intro mult_le_mono1) simp
  then show ?thesis by simp
qed

lemma row_slice_update:
  assumes "c < n" "row * n + n \<le> length st"
  shows "take n (drop (row * n) (st[row * n + c := v])) = (take n (drop (row * n) st))[c := v]"
  using assms by (simp add: drop_update_swap take_update_swap)

lemma active_update:
  assumes "c < MATRIX_COLS cfg" "row * MATRIX_COLS cfg + MATRIX_COLS cfg \<le> length st"
  shows "active_in_row cfg (st[row * MATRIX_COLS cfg + c := v]) row
           + (if count (st ! (row * MATRIX_COLS cfg + c)) \<noteq> 0 then 1 else 0)
         = active_in_row cfg st row + (if count v \<noteq> 0 then 1 else 0)"
proof -
  let ?xs = "take (MATRIX_COLS cfg) (drop (row * MATRIX_COLS cfg) st)"
  have len: "c < length ?xs" using assms by simp
  have nth: "?xs ! c = st ! (row * MATRIX_COLS cfg + c)" using assms by simp
  show ?thesis
    unfolding active_in_row_def row_slice_update [OF assms]
    using filter_update_count [OF len, of "\<lambda>s. count s \<noteq> 0" v] by (simp only: nth)
qed

lemma active_less:
  assumes "c < MATRIX_COLS cfg" "row * MATRIX_COLS cfg + MATRIX_COLS cfg \<le> length st"
    and "count (st ! (row * MATRIX_COLS cfg + c)) = 0"
  shows "active_in_row cfg st row < MATRIX_COLS cfg"
proof -
  let ?xs = "take (MATRIX_COLS cfg) (drop (row * MATRIX_COLS cfg) st)"
  have len: "c < length ?xs" "length ?xs = MATRIX_COLS cfg" using assms by simp_all
  have nth: "?xs ! c = st ! (row * MATRIX_COLS cfg + c)" using assms by simp
  have "?xs ! c \<in> set ?xs" using len(1) by (rule nth_mem)
  then have "length (filter (\<lambda>s. count s \<noteq> 0) ?xs) < length ?xs"
    by (rule length_filter_less) (simp add: nth assms(3))
  then show ?thesis by (simp add: active_in_row_def)
qed

lemma active_pos:
  assumes "c < MATRIX_COLS cfg" "row * MATRIX_COLS cfg + MATRIX_COLS cfg \<le> length st"
    and "count (st ! (row * MATRIX_COLS cfg + c)) \<noteq> 0"
  shows "0 < active_in_row cfg st row"
proof -
  let ?xs = "take (MATRIX_COLS cfg) (drop (row * MATRIX_COLS cfg) st)"
  have len: "c < length ?xs" using assms by simp
  have nth: "?xs ! c = st ! (row * MATRIX_COLS cfg + c)" using assms by simp
  have "?xs ! c \<in> set ?xs" using len by (rule nth_mem)
  moreover have "count (?xs ! c) \<noteq> 0" unfolding nth by (fact assms(3))
  ultimately have "?xs ! c \<in> set (filter (\<lambda>s. count s \<noteq> 0) ?xs)"
    by (simp only: set_filter mem_Collect_eq simp_thms)
  then show ?thesis unfolding active_in_row_def by (rule length_pos_if_in_set)
qed

lemma active_zero:
  assumes "active_in_row cfg st row = 0" "c < MATRIX_COLS cfg"
    "row * MATRIX_COLS cfg + MATRIX_COLS cfg \<le> length st"
  shows "count (st ! (row * MATRIX_COLS cfg + c)) = 0"
  using active_pos [OF assms(2,3)] assms(1) by auto

lemma u8_of_nat: "n < 256 \<Longrightarrow> unat (of_nat n :: 8 word) = n"
  by (simp add: unat_of_nat)

lemma u8_of_nat_nonzero: "0 < n \<Longrightarrow> n < 256 \<Longrightarrow> (of_nat n :: 8 word) \<noteq> 0"
  using u8_of_nat [of n] by auto

lemma window_ok_nonzero:
  assumes "window_ok cfg"
  shows "(of_nat (DEBOUNCE_DOWN cfg) :: 8 word) \<noteq> 0" "(of_nat (DEBOUNCE_UP cfg) :: 8 word) \<noteq> 0"
  using assms by (simp_all add: window_ok_def u8_of_nat_nonzero)

lemma asym_col_step:
  fixes cr0 :: "'a::len word"
  assumes inv: "asym_col_inv cfg changed e raw_row row cr0 st0 rc0 k s"
    and k: "k < MATRIX_COLS cfg" and cols: "MATRIX_COLS cfg < 256"
    and len: "row * MATRIX_COLS cfg + MATRIX_COLS cfg \<le> length st0" "row < length rc0"
    and w: "window_ok cfg"
  shows "asym_col_inv cfg changed e raw_row row cr0 st0 rc0 (Suc k)
           (asym_col cfg changed e raw_row (raw_row XOR cr0) row k s)"
proof -
  obtain cr m sp st rc where s: "s = (cr, m, sp, st, rc)" by (cases s)
  let ?n = "MATRIX_COLS cfg"
  let ?i = "row * ?n + k"
  from inv have m: "m = 2 ^ k" and sp: "sp = ?i"
    and lst: "length st = length st0" and lrc: "length rc = length rc0"
    and cells: "\<forall>c<k. (bit cr c, count (st ! (row * ?n + c))) =
        asym_cell cfg changed e (bit raw_row c) (bit cr0 c, count (st0 ! (row * ?n + c)))"
    and hi: "\<forall>c\<ge>k. bit cr c = bit cr0 c"
    and frame: "\<forall>j. j < row * ?n \<or> row * ?n + k \<le> j \<longrightarrow> st ! j = st0 ! j"
    and rcs: "\<forall>r. r \<noteq> row \<longrightarrow> rc ! r = rc0 ! r"
    and act: "unat (rc ! row) = active_in_row cfg st row"
    by (simp_all add: asym_col_inv_def s)
  have i: "?i < length st" using k len lst by simp
  have len': "row * ?n + ?n \<le> length st" using len lst by simp
  have row: "row < length rc" using len lrc by simp
  have old: "st ! ?i = st0 ! ?i" using frame by simp
  have bk: "bit cr k = bit cr0 k" using hi by simp
  have delta: "bit (raw_row XOR cr0) k = (bit raw_row k \<noteq> bit cr0 k)"
    by (simp add: bit_xor_iff)
  note upd = active_update [OF k len']
  have lower: "\<And>c v. c < k \<Longrightarrow> st[?i := v] ! (row * ?n + c) = st ! (row * ?n + c)"
    by simp
  have outside: "\<And>j v. j < row * ?n \<or> row * ?n + Suc k \<le> j \<Longrightarrow> st[?i := v] ! j = st ! j"
    by auto
  consider (arm) "changed" "bit raw_row k \<noteq> bit cr0 k"
    | (count) "\<not> (changed \<and> bit raw_row k \<noteq> bit cr0 k)" "count (st ! ?i) > e"
    | (commit) "\<not> (changed \<and> bit raw_row k \<noteq> bit cr0 k)" "\<not> count (st ! ?i) > e"
        "count (st ! ?i) \<noteq> 0"
    | (idle) "\<not> (changed \<and> bit raw_row k \<noteq> bit cr0 k)" "\<not> count (st ! ?i) > e"
        "count (st ! ?i) = 0"
    by blast
  then show ?thesis
  proof cases
    case arm
    let ?w = "if bit raw_row k then of_nat (DEBOUNCE_DOWN cfg) else of_nat (DEBOUNCE_UP cfg) :: 8 word"
    let ?st = "st[?i := (st ! ?i)\<lparr>count := ?w\<rparr>]"
    let ?rc = "if 0 = count (st ! ?i) then rc[row := rc ! row + 1] else rc"
    have wnz: "?w \<noteq> 0" using window_ok_nonzero [OF w] by simp
    have res: "asym_col cfg changed e raw_row (raw_row XOR cr0) row k s
        = (cr, 2 ^ Suc k, Suc ?i, ?st, ?rc)"
      using arm by (simp add: asym_col_def s m sp mask_test2 delta Let_def push_bit_eq_mult)
    have a: "unat (?rc ! row) = active_in_row cfg ?st row"
    proof (cases "count (st ! ?i) = 0")
      case True
      have "active_in_row cfg st row < ?n" using active_less [OF k len' True] .
      then have "unat (rc ! row) < 255" using act cols by simp
      then have "unat (rc ! row + 1) = Suc (unat (rc ! row))" by (rule u8_succ)
      moreover have "active_in_row cfg ?st row = Suc (active_in_row cfg st row)"
        using upd [of "(st ! ?i)\<lparr>count := ?w\<rparr>"] True wnz by simp
      ultimately show ?thesis using True act row by simp
    next
      case False
      have "active_in_row cfg ?st row = active_in_row cfg st row"
        using upd [of "(st ! ?i)\<lparr>count := ?w\<rparr>"] False wnz by simp
      then show ?thesis using False act by simp
    qed
    have c: "(bit cr k, count (?st ! ?i)) =
        asym_cell cfg changed e (bit raw_row k) (bit cr0 k, count (st0 ! ?i))"
      using arm i by (simp add: asym_cell_def bk)
    show ?thesis
      unfolding res asym_col_inv_def prod.case
    proof (intro conjI allI impI)
      fix c assume "c < Suc k"
      then show "(bit cr c, count (?st ! (row * ?n + c))) =
        asym_cell cfg changed e (bit raw_row c) (bit cr0 c, count (st0 ! (row * ?n + c)))"
        using cells c lower by (cases "c = k") (simp_all del: nth_list_update_eq)
    next
      fix j assume "j < row * ?n \<or> row * ?n + Suc k \<le> j"
      then show "?st ! j = st0 ! j" using frame outside by auto
    next
      fix r assume "r \<noteq> row"
      then show "?rc ! r = rc0 ! r" using rcs by simp
    qed (use hi lst lrc a in simp_all)
  next
    case count
    let ?st = "st[?i := (st ! ?i)\<lparr>count := count (st ! ?i) - e\<rparr>]"
    have res: "asym_col cfg changed e raw_row (raw_row XOR cr0) row k s
        = (cr, 2 ^ Suc k, Suc ?i, ?st, rc)"
      using count by (auto simp add: asym_col_def s m sp mask_test2 delta Let_def push_bit_eq_mult)
    have nz: "count (st ! ?i) \<noteq> 0" "count (st ! ?i) - e \<noteq> 0"
      using count(2) by (auto simp: word_less_nat_alt unat_sub less_imp_le unat_eq_0 [symmetric]
          simp del: unat_eq_0)
    have a: "unat (rc ! row) = active_in_row cfg ?st row"
      using upd [of "(st ! ?i)\<lparr>count := count (st ! ?i) - e\<rparr>"] nz act by simp
    have c: "(bit cr k, count (?st ! ?i)) =
        asym_cell cfg changed e (bit raw_row k) (bit cr0 k, count (st0 ! ?i))"
      using count i by (auto simp add: asym_cell_def bk old)
    show ?thesis
      unfolding res asym_col_inv_def prod.case
    proof (intro conjI allI impI)
      fix c assume "c < Suc k"
      then show "(bit cr c, count (?st ! (row * ?n + c))) =
        asym_cell cfg changed e (bit raw_row c) (bit cr0 c, count (st0 ! (row * ?n + c)))"
        using cells c lower by (cases "c = k") (simp_all del: nth_list_update_eq)
    next
      fix j assume "j < row * ?n \<or> row * ?n + Suc k \<le> j"
      then show "?st ! j = st0 ! j" using frame outside by auto
    qed (use hi lst lrc a rcs in simp_all)
  next
    case commit
    let ?st = "st[?i := (st ! ?i)\<lparr>count := 0\<rparr>]"
    let ?cr = "(NOT (2 ^ k) AND cr) OR (2 ^ k AND raw_row)"
    have res: "asym_col cfg changed e raw_row (raw_row XOR cr0) row k s
        = (?cr, 2 ^ Suc k, Suc ?i, ?st, rc[row := rc ! row - 1])"
      using commit by (auto simp add: asym_col_def s m sp mask_test2 delta Let_def push_bit_eq_mult)
    have "0 < active_in_row cfg st row" using active_pos [OF k len' commit(3)] .
    then have "rc ! row \<noteq> 0" using act by (auto simp: unat_eq_0 [symmetric] simp del: unat_eq_0)
    then have "unat (rc ! row - 1) = unat (rc ! row) - 1" by (rule u8_pred)
    moreover have "Suc (active_in_row cfg ?st row) = active_in_row cfg st row"
      using upd [of "(st ! ?i)\<lparr>count := 0\<rparr>"] commit(3) by simp
    ultimately have a: "unat (rc[row := rc ! row - 1] ! row) = active_in_row cfg ?st row"
      using act row by simp
    have c: "(bit ?cr k, count (?st ! ?i)) =
        asym_cell cfg changed e (bit raw_row k) (bit cr0 k, count (st0 ! ?i))"
      using commit i by (auto simp add: asym_cell_def bk old bit_copy2)
    show ?thesis
      unfolding res asym_col_inv_def prod.case
    proof (intro conjI allI impI)
      fix c assume "c < Suc k"
      then show "(bit ?cr c, count (?st ! (row * ?n + c))) =
        asym_cell cfg changed e (bit raw_row c) (bit cr0 c, count (st0 ! (row * ?n + c)))"
        using cells c lower by (cases "c = k") (simp_all add: bit_copy2 del: nth_list_update_eq)
    next
      fix j assume "j < row * ?n \<or> row * ?n + Suc k \<le> j"
      then show "?st ! j = st0 ! j" using frame outside by auto
    next
      fix c assume "Suc k \<le> c"
      then show "bit ?cr c = bit cr0 c" using hi by (simp add: bit_copy2)
    next
      fix r assume "r \<noteq> row"
      then show "rc[row := rc ! row - 1] ! r = rc0 ! r" using rcs by simp
    qed (use lst lrc a in simp_all)
  next
    case idle
    have res: "asym_col cfg changed e raw_row (raw_row XOR cr0) row k s
        = (cr, 2 ^ Suc k, Suc ?i, st, rc)"
      using idle by (auto simp add: asym_col_def s m sp mask_test2 delta Let_def push_bit_eq_mult)
    have c: "(bit cr k, count (st ! ?i)) =
        asym_cell cfg changed e (bit raw_row k) (bit cr0 k, count (st0 ! ?i))"
      using idle by (auto simp add: asym_cell_def bk old)
    show ?thesis
      unfolding res asym_col_inv_def prod.case
    proof (intro conjI allI impI)
      fix c assume "c < Suc k"
      then show "(bit cr c, count (st ! (row * ?n + c))) =
        asym_cell cfg changed e (bit raw_row c) (bit cr0 c, count (st0 ! (row * ?n + c)))"
        using cells c by (cases "c = k") simp_all
    next
      fix j assume "j < row * ?n \<or> row * ?n + Suc k \<le> j"
      then show "st ! j = st0 ! j" using frame by auto
    qed (use hi lst lrc act rcs in simp_all)
  qed
qed

lemma asym_cols_fold:
  fixes cr0 :: "'a::len word"
  assumes k: "k \<le> MATRIX_COLS cfg" and cols: "MATRIX_COLS cfg < 256"
    and len: "row * MATRIX_COLS cfg + MATRIX_COLS cfg \<le> length st0" "row < length rc0"
    and w: "window_ok cfg"
    and act: "unat (rc0 ! row) = active_in_row cfg st0 row"
  shows "asym_col_inv cfg changed e raw_row row cr0 st0 rc0 k
           (fold (asym_col cfg changed e raw_row (raw_row XOR cr0) row) [0..<k]
              (cr0, 1, row * MATRIX_COLS cfg, st0, rc0))"
  using k
proof (induction k)
  case 0
  show ?case using act by (simp add: asym_col_inv_def)
next
  case (Suc k)
  then have "asym_col_inv cfg changed e raw_row row cr0 st0 rc0 k
           (fold (asym_col cfg changed e raw_row (raw_row XOR cr0) row) [0..<k]
              (cr0, 1, row * MATRIX_COLS cfg, st0, rc0))" by simp
  from asym_col_step [OF this _ cols len w] Suc.prems show ?case by simp
qed

lemma active_cong:
  assumes "length st' = length st" "r * MATRIX_COLS cfg + MATRIX_COLS cfg \<le> length st"
    and "\<And>c. c < MATRIX_COLS cfg \<Longrightarrow> st' ! (r * MATRIX_COLS cfg + c) = st ! (r * MATRIX_COLS cfg + c)"
  shows "active_in_row cfg st' r = active_in_row cfg st r"
proof -
  have "take (MATRIX_COLS cfg) (drop (r * MATRIX_COLS cfg) st') =
        take (MATRIX_COLS cfg) (drop (r * MATRIX_COLS cfg) st)"
    using assms by (intro nth_equalityI) simp_all
  then show ?thesis by (simp add: active_in_row_def)
qed

lemma asym_row_step:
  fixes cooked0 :: "'a::len word list"
  assumes inv: "asym_row_inv cfg changed e raw cooked0 st0 rc0 k s"
    and k: "k < length rc0" and cols: "MATRIX_COLS cfg < 256"
    and len: "length st0 = length rc0 * MATRIX_COLS cfg" "length rc0 \<le> length cooked0"
    and w: "window_ok cfg"
  shows "asym_row_inv cfg changed e raw cooked0 st0 rc0 (Suc k) (asym_row cfg raw changed e k s)"
proof -
  obtain cooked sp st rc where s: "s = (cooked, sp, st, rc)" by (cases s)
  let ?n = "MATRIX_COLS cfg"
  from inv have sp: "sp = k * ?n"
    and lst: "length st = length st0" and lrc: "length rc = length rc0"
    and lck: "length cooked = length cooked0"
    and cells: "\<forall>row<k. \<forall>c<?n.
        (bit (cooked ! row) c, count (st ! (row * ?n + c))) =
        asym_cell cfg changed e (bit (raw ! row) c)
          (bit (cooked0 ! row) c, count (st0 ! (row * ?n + c)))"
    and hi: "\<forall>row<k. \<forall>c\<ge>?n. bit (cooked ! row) c = bit (cooked0 ! row) c"
    and rows: "\<forall>row\<ge>k. cooked ! row = cooked0 ! row"
    and frame: "\<forall>j\<ge>k * ?n. st ! j = st0 ! j"
    and act: "\<forall>row<length rc0. unat (rc ! row) = active_in_row cfg st row"
    by (simp_all add: asym_row_inv_def s)
  have rowlen: "k * ?n + ?n \<le> length st"
    using row_before [of k "Suc k" ?n] mult_le_mono1 [of "Suc k" "length rc0" ?n] k len lst
    by simp
  have kc: "k < length cooked" using k len lck by simp
  have below: "\<And>row c. row < k \<Longrightarrow> c < ?n \<Longrightarrow> row * ?n + c < k * ?n"
    by (rule cell_index_less)
  show ?thesis
  proof (cases "rc ! k = 0 \<and> \<not> changed")
    case True
    have res: "asym_row cfg raw changed e k s = (cooked, Suc k * ?n, st, rc)"
      using True by (simp add: asym_row_def s sp)
    have az: "active_in_row cfg st k = 0" using act k True by (metis unat_0)
    have zero: "\<And>c. c < ?n \<Longrightarrow> count (st ! (k * ?n + c)) = 0"
      by (rule active_zero [OF az _ rowlen])
    have new: "\<And>c. c < ?n \<Longrightarrow> (bit (cooked ! k) c, count (st ! (k * ?n + c))) =
        asym_cell cfg changed e (bit (raw ! k) c) (bit (cooked0 ! k) c, count (st0 ! (k * ?n + c)))"
    proof -
      fix c assume c: "c < ?n"
      have "st0 ! (k * ?n + c) = st ! (k * ?n + c)" using frame by simp
      then show "(bit (cooked ! k) c, count (st ! (k * ?n + c))) =
        asym_cell cfg changed e (bit (raw ! k) c) (bit (cooked0 ! k) c, count (st0 ! (k * ?n + c)))"
        using True zero [OF c] rows by (simp add: asym_cell_def)
    qed
    show ?thesis
      unfolding res asym_row_inv_def prod.case
    proof (intro conjI allI impI)
      fix row c assume "row < Suc k" "c < ?n"
      then show "(bit (cooked ! row) c, count (st ! (row * ?n + c))) =
        asym_cell cfg changed e (bit (raw ! row) c)
          (bit (cooked0 ! row) c, count (st0 ! (row * ?n + c)))"
        using cells new by (cases "row = k") simp_all
    next
      fix row c assume "row < Suc k" "?n \<le> c"
      then show "bit (cooked ! row) c = bit (cooked0 ! row) c"
        using hi rows by (cases "row = k") simp_all
    next
      fix j assume "Suc k * ?n \<le> j"
      then show "st ! j = st0 ! j" using frame by simp
    qed (use lst lrc lck rows act in simp_all)
  next
    case False
    let ?f = "fold (asym_col cfg changed e (raw ! k) (raw ! k XOR cooked ! k) k) [0..<?n]
                (cooked ! k, 1, k * ?n, st, rc)"
    obtain cr' m' sp' st' rc' where f: "?f = (cr', m', sp', st', rc')" by (cases ?f)
    have res: "asym_row cfg raw changed e k s = (cooked[k := cr'], sp', st', rc')"
      using False f by (auto simp add: asym_row_def s sp Let_def)
    have "asym_col_inv cfg changed e (raw ! k) k (cooked ! k) st rc ?n ?f"
      using k lrc act by (intro asym_cols_fold cols rowlen w) simp_all
    then have sp': "sp' = k * ?n + ?n"
      and lst': "length st' = length st" and lrc': "length rc' = length rc"
      and cells': "\<forall>c<?n. (bit cr' c, count (st' ! (k * ?n + c))) =
          asym_cell cfg changed e (bit (raw ! k) c) (bit (cooked ! k) c, count (st ! (k * ?n + c)))"
      and hi': "\<forall>c\<ge>?n. bit cr' c = bit (cooked ! k) c"
      and frame': "\<forall>j. j < k * ?n \<or> k * ?n + ?n \<le> j \<longrightarrow> st' ! j = st ! j"
      and rcs': "\<forall>r. r \<noteq> k \<longrightarrow> rc' ! r = rc ! r"
      and act': "unat (rc' ! k) = active_in_row cfg st' k"
      by (simp_all add: asym_col_inv_def f)
    have ck: "cooked ! k = cooked0 ! k" using rows by simp
    have new: "\<And>c. c < ?n \<Longrightarrow> (bit cr' c, count (st' ! (k * ?n + c))) =
        asym_cell cfg changed e (bit (raw ! k) c) (bit (cooked0 ! k) c, count (st0 ! (k * ?n + c)))"
      using cells' frame ck by simp
    have old: "\<And>row c. row < k \<Longrightarrow> c < ?n \<Longrightarrow> st' ! (row * ?n + c) = st ! (row * ?n + c)"
      using frame' below by simp
    have other: "\<And>r. r < length rc0 \<Longrightarrow> r \<noteq> k \<Longrightarrow> active_in_row cfg st' r = active_in_row cfg st r"
    proof -
      fix r assume r: "r < length rc0" "r \<noteq> k"
      have rl: "r * ?n + ?n \<le> length st"
        using row_before [of r "Suc r" ?n] mult_le_mono1 [of "Suc r" "length rc0" ?n] r len lst
        by simp
      show "active_in_row cfg st' r = active_in_row cfg st r"
      proof (rule active_cong [OF lst' rl])
        fix c assume c: "c < ?n"
        show "st' ! (r * ?n + c) = st ! (r * ?n + c)"
        proof (cases "r < k")
          case True
          then show ?thesis using old c by simp
        next
          case False
          with r have "k < r" by simp
          then have "k * ?n + ?n \<le> r * ?n" by (rule row_before)
          then show ?thesis using frame' by simp
        qed
      qed
    qed
    show ?thesis
      unfolding res asym_row_inv_def prod.case
    proof (intro conjI allI impI)
      fix row c assume a: "row < Suc k" "c < ?n"
      show "(bit (cooked[k := cr'] ! row) c, count (st' ! (row * ?n + c))) =
        asym_cell cfg changed e (bit (raw ! row) c)
          (bit (cooked0 ! row) c, count (st0 ! (row * ?n + c)))"
      proof (cases "row = k")
        case True
        then show ?thesis using new [OF a(2)] kc by simp
      next
        case False
        with a have "row < k" by simp
        then show ?thesis using cells old a(2) False by simp
      qed
    next
      fix row c assume a: "row < Suc k" "?n \<le> c"
      show "bit (cooked[k := cr'] ! row) c = bit (cooked0 ! row) c"
      proof (cases "row = k")
        case True
        then show ?thesis using hi' ck a(2) kc by simp
      next
        case False
        with a have "row < k" by simp
        then show ?thesis using hi a(2) False by simp
      qed
    next
      fix row assume "Suc k \<le> row"
      then show "cooked[k := cr'] ! row = cooked0 ! row" using rows by simp
    next
      fix j assume "Suc k * ?n \<le> j"
      then show "st' ! j = st0 ! j" using frame frame' by simp
    next
      fix row assume r: "row < length rc0"
      show "unat (rc' ! row) = active_in_row cfg st' row"
      proof (cases "row = k")
        case True
        then show ?thesis using act' by simp
      next
        case False
        then show ?thesis using other [OF r False] rcs' act r by simp
      qed
    qed (use sp' lst lst' lrc lrc' lck in simp_all)
  qed
qed

lemma asym_rows_fold:
  fixes cooked0 :: "'a::len word list"
  assumes k: "k \<le> length rc0" and cols: "MATRIX_COLS cfg < 256"
    and len: "length st0 = length rc0 * MATRIX_COLS cfg" "length rc0 \<le> length cooked0"
    and w: "window_ok cfg"
    and act: "\<forall>row<length rc0. unat (rc0 ! row) = active_in_row cfg st0 row"
  shows "asym_row_inv cfg changed e raw cooked0 st0 rc0 k
           (fold (asym_row cfg raw changed e) [0..<k] (cooked0, 0, st0, rc0))"
  using k
proof (induction k)
  case 0
  show ?case using act by (simp add: asym_row_inv_def)
next
  case (Suc k)
  then have "asym_row_inv cfg changed e raw cooked0 st0 rc0 k
           (fold (asym_row cfg raw changed e) [0..<k] (cooked0, 0, st0, rc0))" by simp
  from asym_row_step [OF this _ cols len w] Suc.prems show ?case by simp
qed

text \<open>The whole call, cell by cell.\<close>

lemma asym_debounce_cells:
  fixes cooked :: "'a::len word list"
  assumes inv: "asym_inv cfg num_rows g" and cols: "MATRIX_COLS cfg < 256"
    and w: "window_ok cfg" and len: "num_rows \<le> length cooked"
    and res: "asym_debounce cfg now raw cooked num_rows changed g = (cooked', g')"
  shows "asym_inv cfg num_rows g'"
    and "length cooked' = length cooked"
    and "asym.last_time g' = asym.last_time g"
    and "\<And>row c. row < num_rows \<Longrightarrow> c < MATRIX_COLS cfg \<Longrightarrow>
          (bit (cooked' ! row) c, count (asym.state g' ! (row * MATRIX_COLS cfg + c))) =
          asym_cell cfg changed (asym_elapsed now g) (bit (raw ! row) c)
            (bit (cooked ! row) c, count (asym.state g ! (row * MATRIX_COLS cfg + c)))"
    and "\<And>row c. row < num_rows \<Longrightarrow> MATRIX_COLS cfg \<le> c \<Longrightarrow>
          bit (cooked' ! row) c = bit (cooked ! row) c"
    and "\<And>row. num_rows \<le> row \<Longrightarrow> cooked' ! row = cooked ! row"
proof -
  let ?f = "fold (asym_row cfg raw changed (asym_elapsed now g)) [0..<num_rows]
              (cooked, 0, asym.state g, row_counts g)"
  obtain ck sp st rc where f: "?f = (ck, sp, st, rc)" by (cases ?f)
  from inv have l: "length (asym.state g) = length (row_counts g) * MATRIX_COLS cfg"
    "length (row_counts g) = num_rows"
    "\<forall>row<length (row_counts g). unat (row_counts g ! row) = active_in_row cfg (asym.state g) row"
    by (simp_all add: asym_inv_def)
  have "asym_row_inv cfg changed (asym_elapsed now g) raw cooked (asym.state g) (row_counts g)
          num_rows ?f"
    using l len by (intro asym_rows_fold cols w) simp_all
  then have r: "length st = length (asym.state g)" "length rc = length (row_counts g)"
    "length ck = length cooked"
    "\<forall>row<num_rows. \<forall>c<MATRIX_COLS cfg.
        (bit (ck ! row) c, count (st ! (row * MATRIX_COLS cfg + c))) =
        asym_cell cfg changed (asym_elapsed now g) (bit (raw ! row) c)
          (bit (cooked ! row) c, count (asym.state g ! (row * MATRIX_COLS cfg + c)))"
    "\<forall>row<num_rows. \<forall>c\<ge>MATRIX_COLS cfg. bit (ck ! row) c = bit (cooked ! row) c"
    "\<forall>row\<ge>num_rows. ck ! row = cooked ! row"
    "\<forall>row<length (row_counts g). unat (rc ! row) = active_in_row cfg st row"
    by (simp_all add: asym_row_inv_def f)
  from res f have eq: "cooked' = ck" "g' = g\<lparr>asym.state := st, row_counts := rc\<rparr>"
    by (simp_all add: asym_debounce_def Let_def)
  show "asym_inv cfg num_rows g'" using r l by (simp add: asym_inv_def eq)
  show "length cooked' = length cooked" using r by (simp add: eq)
  show "asym.last_time g' = asym.last_time g" by (simp add: eq)
  show "\<And>row c. row < num_rows \<Longrightarrow> c < MATRIX_COLS cfg \<Longrightarrow>
          (bit (cooked' ! row) c, count (asym.state g' ! (row * MATRIX_COLS cfg + c))) =
          asym_cell cfg changed (asym_elapsed now g) (bit (raw ! row) c)
            (bit (cooked ! row) c, count (asym.state g ! (row * MATRIX_COLS cfg + c)))"
    using r(4) by (simp add: eq)
  show "\<And>row c. row < num_rows \<Longrightarrow> MATRIX_COLS cfg \<le> c \<Longrightarrow>
          bit (cooked' ! row) c = bit (cooked ! row) c"
    using r(5) by (simp add: eq)
  show "\<And>row. num_rows \<le> row \<Longrightarrow> cooked' ! row = cooked ! row"
    using r(6) by (simp add: eq)
qed

lemma fancy_col_step:
  fixes cr0 :: "'a::len word"
  assumes inv: "fancy_col_inv cfg e raw_addr raw_row r cr0 ks0 k s"
    and k: "k < MATRIX_COLS cfg"
    and len: "r * MATRIX_COLS cfg + MATRIX_COLS cfg \<le> length ks0"
  shows "fancy_col_inv cfg e raw_addr raw_row r cr0 ks0 (Suc k)
           (fancy_col cfg e raw_addr (cr0 XOR raw_row) k s)"
proof -
  obtain cr m p ks where s: "s = (cr, m, p, ks)" by (cases s)
  let ?n = "MATRIX_COLS cfg"
  let ?i = "r * ?n + k"
  from inv have m: "m = 2 ^ k" and p: "p = ?i" and lks: "length ks = length ks0"
    and cells: "\<forall>c<k. (bit cr c, ks ! (r * ?n + c)) =
        fancy_cell cfg e (bit raw_addr c) (bit raw_row c) (bit cr0 c, ks0 ! (r * ?n + c))"
    and hi: "\<forall>c\<ge>k. bit cr c = bit cr0 c"
    and frame: "\<forall>j. j < r * ?n \<or> r * ?n + k \<le> j \<longrightarrow> ks ! j = ks0 ! j"
    by (simp_all add: fancy_col_inv_def s)
  have i: "?i < length ks" using k len lks by simp
  have old: "ks ! ?i = ks0 ! ?i" using frame by simp
  have bk: "bit cr k = bit cr0 k" using hi by simp
  have delta: "bit (cr0 XOR raw_row) k = (bit raw_row k \<noteq> bit cr0 k)"
    by (auto simp add: bit_xor_iff)
  have kl: "bit raw_row k \<noteq> bit cr0 k \<Longrightarrow> k < LENGTH('a)"
    by (auto dest: bit_imp_le_length)
  obtain b' k' where cell: "fancy_cell cfg e (bit raw_addr k) (bit raw_row k) (bit cr0 k, ks0 ! ?i)
        = (b', k')" by (cases "fancy_cell cfg e (bit raw_addr k) (bit raw_row k) (bit cr0 k, ks0 ! ?i)")
  have same: "ks[?i := ks0 ! ?i] = ks" using old list_update_id [of ks ?i] by simp
  have "\<exists>cr'. fancy_col cfg e raw_addr (cr0 XOR raw_row) k s = (cr', 2 ^ Suc k, Suc ?i, ks[?i := k'])
      \<and> (\<forall>c. bit cr' c = (if c = k then b' else bit cr c))"
    using cell kl
    by (cases "state (ks0 ! ?i)")
      (auto simp add: fancy_col_def fancy_cell_def s m p old mask_test2 mask_test20 delta bk
        push_bit_eq_mult bit_flip2 same split: if_splits)
  then obtain cr' where res: "fancy_col cfg e raw_addr (cr0 XOR raw_row) k s
        = (cr', 2 ^ Suc k, Suc ?i, ks[?i := k'])"
    and bits: "\<And>c. bit cr' c = (if c = k then b' else bit cr c)" by blast
  show ?thesis
    unfolding res fancy_col_inv_def prod.case
  proof (intro conjI allI impI)
    fix c assume "c < Suc k"
    then show "(bit cr' c, ks[?i := k'] ! (r * ?n + c)) =
        fancy_cell cfg e (bit raw_addr c) (bit raw_row c) (bit cr0 c, ks0 ! (r * ?n + c))"
      using cells cell i by (cases "c = k") (simp_all add: bits)
  next
    fix c assume "Suc k \<le> c"
    then show "bit cr' c = bit cr0 c" using hi by (simp add: bits)
  next
    fix j assume "j < r * ?n \<or> r * ?n + Suc k \<le> j"
    then show "ks[?i := k'] ! j = ks0 ! j" using frame by auto
  qed (use lks in simp_all)
qed

lemma fancy_cols_fold:
  fixes cr0 :: "'a::len word"
  assumes k: "k \<le> MATRIX_COLS cfg"
    and len: "r * MATRIX_COLS cfg + MATRIX_COLS cfg \<le> length ks0"
  shows "fancy_col_inv cfg e raw_addr raw_row r cr0 ks0 k
           (fold (fancy_col cfg e raw_addr (cr0 XOR raw_row)) [0..<k]
              (cr0, 1, r * MATRIX_COLS cfg, ks0))"
  using k
proof (induction k)
  case 0
  show ?case by (simp add: fancy_col_inv_def)
next
  case (Suc k)
  then have "fancy_col_inv cfg e raw_addr raw_row r cr0 ks0 k
           (fold (fancy_col cfg e raw_addr (cr0 XOR raw_row)) [0..<k]
              (cr0, 1, r * MATRIX_COLS cfg, ks0))" by simp
  from fancy_col_step [OF this _ len] Suc.prems show ?case by simp
qed

lemma fancy_row_step:
  fixes cooked0 :: "'a::len word list"
  assumes inv: "fancy_row_inv cfg e raw_addr raw cooked0 ks0 k s"
    and k: "k < num_rows"
    and len: "length ks0 = num_rows * MATRIX_COLS cfg" "num_rows \<le> length cooked0"
  shows "fancy_row_inv cfg e raw_addr raw cooked0 ks0 (Suc k) (fancy_row cfg e raw_addr raw k s)"
proof -
  obtain cooked p ks where s: "s = (cooked, p, ks)" by (cases s)
  let ?n = "MATRIX_COLS cfg"
  from inv have p: "p = k * ?n"
    and lks: "length ks = length ks0" and lck: "length cooked = length cooked0"
    and cells: "\<forall>r<k. \<forall>c<?n. (bit (cooked ! r) c, ks ! (r * ?n + c)) =
        fancy_cell cfg e (bit raw_addr c) (bit (raw ! r) c) (bit (cooked0 ! r) c, ks0 ! (r * ?n + c))"
    and hi: "\<forall>r<k. \<forall>c\<ge>?n. bit (cooked ! r) c = bit (cooked0 ! r) c"
    and rows: "\<forall>r\<ge>k. cooked ! r = cooked0 ! r"
    and frame: "\<forall>j\<ge>k * ?n. ks ! j = ks0 ! j"
    by (simp_all add: fancy_row_inv_def s)
  have rowlen: "k * ?n + ?n \<le> length ks"
    using row_before [of k "Suc k" ?n] mult_le_mono1 [of "Suc k" num_rows ?n] k len lks
    by simp
  have kc: "k < length cooked" using k len lck by simp
  have below: "\<And>r c. r < k \<Longrightarrow> c < ?n \<Longrightarrow> r * ?n + c < k * ?n"
    by (rule cell_index_less)
  let ?f = "fold (fancy_col cfg e raw_addr (cooked ! k XOR raw ! k)) [0..<?n]
              (cooked ! k, 1, k * ?n, ks)"
  obtain cr' m' p' ks' where f: "?f = (cr', m', p', ks')" by (cases ?f)
  have res: "fancy_row cfg e raw_addr raw k s = (cooked[k := cr'], p', ks')"
    using f by (simp add: fancy_row_def s p Let_def)
  have "fancy_col_inv cfg e raw_addr (raw ! k) k (cooked ! k) ks ?n ?f"
    by (intro fancy_cols_fold rowlen) simp
  then have p': "p' = k * ?n + ?n" and lks': "length ks' = length ks"
    and cells': "\<forall>c<?n. (bit cr' c, ks' ! (k * ?n + c)) =
        fancy_cell cfg e (bit raw_addr c) (bit (raw ! k) c) (bit (cooked ! k) c, ks ! (k * ?n + c))"
    and hi': "\<forall>c\<ge>?n. bit cr' c = bit (cooked ! k) c"
    and frame': "\<forall>j. j < k * ?n \<or> k * ?n + ?n \<le> j \<longrightarrow> ks' ! j = ks ! j"
    by (simp_all add: fancy_col_inv_def f)
  have ck: "cooked ! k = cooked0 ! k" using rows by simp
  have new: "\<And>c. c < ?n \<Longrightarrow> (bit cr' c, ks' ! (k * ?n + c)) =
      fancy_cell cfg e (bit raw_addr c) (bit (raw ! k) c) (bit (cooked0 ! k) c, ks0 ! (k * ?n + c))"
    using cells' frame ck by simp
  have old: "\<And>r c. r < k \<Longrightarrow> c < ?n \<Longrightarrow> ks' ! (r * ?n + c) = ks ! (r * ?n + c)"
    using frame' below by simp
  show ?thesis
    unfolding res fancy_row_inv_def prod.case
  proof (intro conjI allI impI)
    fix r c assume a: "r < Suc k" "c < ?n"
    show "(bit (cooked[k := cr'] ! r) c, ks' ! (r * ?n + c)) =
        fancy_cell cfg e (bit raw_addr c) (bit (raw ! r) c) (bit (cooked0 ! r) c, ks0 ! (r * ?n + c))"
    proof (cases "r = k")
      case True
      then show ?thesis using new [OF a(2)] kc by simp
    next
      case False
      with a have "r < k" by simp
      then show ?thesis using cells old a(2) False by simp
    qed
  next
    fix r c assume a: "r < Suc k" "?n \<le> c"
    show "bit (cooked[k := cr'] ! r) c = bit (cooked0 ! r) c"
    proof (cases "r = k")
      case True
      then show ?thesis using hi' ck a(2) kc by simp
    next
      case False
      with a have "r < k" by simp
      then show ?thesis using hi a(2) False by simp
    qed
  next
    fix r assume "Suc k \<le> r"
    then show "cooked[k := cr'] ! r = cooked0 ! r" using rows by simp
  next
    fix j assume "Suc k * ?n \<le> j"
    then show "ks' ! j = ks0 ! j" using frame frame' by simp
  qed (use p' lks lks' lck in simp_all)
qed

lemma fancy_rows_fold:
  fixes cooked0 :: "'a::len word list"
  assumes k: "k \<le> num_rows"
    and len: "length ks0 = num_rows * MATRIX_COLS cfg" "num_rows \<le> length cooked0"
  shows "fancy_row_inv cfg e raw_addr raw cooked0 ks0 k
           (fold (fancy_row cfg e raw_addr raw) [0..<k] (cooked0, 0, ks0))"
  using k
proof (induction k)
  case 0
  show ?case by (simp add: fancy_row_inv_def)
next
  case (Suc k)
  then have "fancy_row_inv cfg e raw_addr raw cooked0 ks0 k
           (fold (fancy_row cfg e raw_addr raw) [0..<k] (cooked0, 0, ks0))" by simp
  from fancy_row_step [OF this _ len] Suc.prems show ?case by simp
qed

lemma fancy_debounce_cells:
  fixes cooked :: "'a::len word list" and g :: "'t::len word fancy"
  assumes lks: "length (key_states g) = num_rows * MATRIX_COLS cfg"
    and len: "num_rows \<le> length cooked"
    and res: "fancy_debounce cfg now raw_addr raw cooked num_rows changed g = (cooked', g')"
  shows "length (key_states g') = num_rows * MATRIX_COLS cfg"
    and "length cooked' = length cooked"
    and "fancy.last_time_initialized g'" and "fancy.last_time g' = now"
    and "\<And>r c. r < num_rows \<Longrightarrow> c < MATRIX_COLS cfg \<Longrightarrow>
          (bit (cooked' ! r) c, key_states g' ! (r * MATRIX_COLS cfg + c)) =
          fancy_cell cfg (fst (fancy_get_elapsed now g)) (bit raw_addr c) (bit (raw ! r) c)
            (bit (cooked ! r) c, key_states g ! (r * MATRIX_COLS cfg + c))"
    and "\<And>r c. r < num_rows \<Longrightarrow> MATRIX_COLS cfg \<le> c \<Longrightarrow>
          bit (cooked' ! r) c = bit (cooked ! r) c"
    and "\<And>r. num_rows \<le> r \<Longrightarrow> cooked' ! r = cooked ! r"
proof -
  obtain e g1 where ge: "fancy_get_elapsed now g = (e, g1)" by (cases "fancy_get_elapsed now g")
  have g1: "key_states g1 = key_states g" "fancy.last_time_initialized g1" "fancy.last_time g1 = now"
    using ge by (auto simp add: fancy_get_elapsed_def Let_def split: if_splits)
  let ?f = "fold (fancy_row cfg e raw_addr raw) [0..<num_rows] (cooked, 0, key_states g)"
  obtain ck p ks where f: "?f = (ck, p, ks)" by (cases ?f)
  have "fancy_row_inv cfg e raw_addr raw cooked (key_states g) num_rows ?f"
    using lks len by (intro fancy_rows_fold) simp_all
  then have r: "length ks = length (key_states g)" "length ck = length cooked"
    "\<forall>r<num_rows. \<forall>c<MATRIX_COLS cfg.
        (bit (ck ! r) c, ks ! (r * MATRIX_COLS cfg + c)) =
        fancy_cell cfg e (bit raw_addr c) (bit (raw ! r) c)
          (bit (cooked ! r) c, key_states g ! (r * MATRIX_COLS cfg + c))"
    "\<forall>r<num_rows. \<forall>c\<ge>MATRIX_COLS cfg. bit (ck ! r) c = bit (cooked ! r) c"
    "\<forall>r\<ge>num_rows. ck ! r = cooked ! r"
    by (simp_all add: fancy_row_inv_def f)
  from res f ge g1 have eq: "cooked' = ck" "g' = g1\<lparr>key_states := ks\<rparr>"
    by (simp_all add: fancy_debounce_def)
  show "length (key_states g') = num_rows * MATRIX_COLS cfg" using r lks by (simp add: eq)
  show "length cooked' = length cooked" using r by (simp add: eq)
  show "fancy.last_time_initialized g'" using g1 by (simp add: eq)
  show "fancy.last_time g' = now" using g1 by (simp add: eq)
  show "\<And>r c. r < num_rows \<Longrightarrow> c < MATRIX_COLS cfg \<Longrightarrow>
          (bit (cooked' ! r) c, key_states g' ! (r * MATRIX_COLS cfg + c)) =
          fancy_cell cfg (fst (fancy_get_elapsed now g)) (bit raw_addr c) (bit (raw ! r) c)
            (bit (cooked ! r) c, key_states g ! (r * MATRIX_COLS cfg + c))"
    using r(3) by (simp add: eq ge)
  show "\<And>r c. r < num_rows \<Longrightarrow> MATRIX_COLS cfg \<le> c \<Longrightarrow>
          bit (cooked' ! r) c = bit (cooked ! r) c"
    using r(4) by (simp add: eq)
  show "\<And>r. num_rows \<le> r \<Longrightarrow> cooked' ! r = cooked ! r"
    using r(5) by (simp add: eq)
qed

lemma chain_cong:
  assumes "length cs' = length cs" "\<And>q. q \<in> set ps \<Longrightarrow> next (cs' ! q) = next (cs ! q)"
  shows "sparse_chain cs' p ps = sparse_chain cs p ps"
  using assms(2)
proof (induction ps arbitrary: p)
  case Nil
  show ?case by simp
next
  case (Cons q qs)
  then show ?case using assms(1) by simp
qed

lemma chain_in_range: "sparse_chain cs p ps \<Longrightarrow> q \<in> set ps \<Longrightarrow> q < length cs"
  by (induction ps arbitrary: p) auto

lemma cell_of_index:
  fixes n :: nat
  assumes "0 < n"
  shows "(c < n \<and> r * n + c = q) \<longleftrightarrow> (r = q div n \<and> c = q mod n)"
proof
  assume a: "c < n \<and> r * n + c = q"
  then have "q div n = r" "q mod n = c" by auto
  then show "r = q div n \<and> c = q mod n" by simp
next
  assume "r = q div n \<and> c = q mod n"
  then show "c < n \<and> r * n + c = q" using assms by simp
qed

text \<open>The cell that a commit writes, and no other.\<close>

lemma sparse_commit_bits:
  fixes cooked :: "'a::len word list"
  assumes n: "0 < MATRIX_COLS cfg" and r: "r < length cooked"
    and q: "unat p div MATRIX_COLS cfg < length cooked"
  shows "bit (sparse_commit cfg raw p cooked ! r) c =
           (if c < MATRIX_COLS cfg \<and> r * MATRIX_COLS cfg + c = unat p then bit (raw ! r) c
            else bit (cooked ! r) c)"
proof -
  let ?n = "MATRIX_COLS cfg"
  have eq: "(c < ?n \<and> r * ?n + c = unat p) \<longleftrightarrow> (r = unat p div ?n \<and> c = unat p mod ?n)"
    using n by (rule cell_of_index)
  show ?thesis
    unfolding eq using r q
    by (cases "r = unat p div ?n")
      (auto simp add: sparse_commit_def Let_def bit_xor_delta2 simp del: bit_xor_iff)
qed

lemma sparse_commit_length [simp]: "length (sparse_commit cfg raw p cooked) = length cooked"
  by (simp add: sparse_commit_def Let_def)

lemma remaining_update_next [simp]:
  "next (cs[q := (cs ! q)\<lparr>debounce_counter_t.remaining := v\<rparr>] ! j) = next (cs ! j)"
  by (cases "j = q"; cases "q < length cs") (simp_all add: list_update_beyond)

lemma next_update_remaining [simp]:
  "debounce_counter_t.remaining (cs[q := (cs ! q)\<lparr>next := v\<rparr>] ! j) = debounce_counter_t.remaining (cs ! j)"
  by (cases "j = q"; cases "q < length cs") (simp_all add: list_update_beyond)

lemma sparse_settle_chain:
  fixes cooked :: "'a::len word list"
  assumes n: "0 < MATRIX_COLS cfg"
    and "sparse_chain cs p ps" "distinct ps" "\<forall>q\<in>set ps. debounce_counter_t.remaining (cs ! q) \<noteq> 0"
    and "load_slot pp (cs, head) = p"
    and "\<forall>j. slot_index pp = Some j \<longrightarrow> j < length cs \<and> j \<notin> set ps"
    and "length cs \<le> length cooked * MATRIX_COLS cfg"
  shows "\<exists>res. sparse_settle cfg e raw pp p cooked (cs, head) = Some (Inr res) \<and>
           settle_post cfg e raw pp ps cooked cs head res"
  using assms(2-)
proof (induction ps arbitrary: p pp cooked cs head)
  case Nil
  then have "p = DEBOUNCE_NULL" by simp
  then have "sparse_settle cfg e raw pp p cooked (cs, head) = Some (Inr (cooked, cs, head))"
    by (subst sparse_settle.simps) simp
  moreover have "settle_post cfg e raw pp [] cooked cs head (cooked, cs, head)"
    using Nil by (simp add: settle_post_def)
  ultimately show ?case by blast
next
  case (Cons q qs)
  let ?n = "MATRIX_COLS cfg"
  let ?keep = "\<lambda>cs q. debounce_counter_t.remaining (cs ! q) > e"
  from Cons.prems have pn: "p \<noteq> DEBOUNCE_NULL" and up: "unat p = q" and ql: "q < length cs"
    and ch: "sparse_chain cs (next (cs ! q)) qs"
    and dq: "q \<notin> set qs" "distinct qs" and rem: "debounce_counter_t.remaining (cs ! q) \<noteq> 0"
    and rems: "\<forall>q'\<in>set qs. debounce_counter_t.remaining (cs ! q') \<noteq> 0"
    and ld: "load_slot pp (cs, head) = p"
    and si: "\<forall>j. slot_index pp = Some j \<longrightarrow> j < length cs \<and> j \<noteq> q \<and> j \<notin> set qs"
    and lc: "length cs \<le> length cooked * ?n"
    by auto
  have qrow: "q div ?n < length cooked"
    using ql lc n by (simp add: less_mult_imp_div_less order_less_le_trans)
  show ?case
  proof (cases "debounce_counter_t.remaining (cs ! q) > e")
    case True
    let ?cs1 = "cs[q := (cs ! q)\<lparr>debounce_counter_t.remaining := debounce_counter_t.remaining (cs ! q) - e\<rparr>]"
    have unfold: "sparse_settle cfg e raw pp p cooked (cs, head) =
        sparse_settle cfg e raw (Next_slot p) (next (cs ! q)) cooked (?cs1, head)"
      using pn up ql rem True by (subst sparse_settle.simps) simp
    have ch1: "sparse_chain ?cs1 (next (cs ! q)) qs"
      using ch by (subst chain_cong [of _ cs]) simp_all
    have same: "\<And>q'. q' \<in> set qs \<Longrightarrow> ?cs1 ! q' = cs ! q'"
      using dq(1) by (metis nth_list_update_neq)
    have rems1: "\<forall>q'\<in>set qs. debounce_counter_t.remaining (?cs1 ! q') \<noteq> 0"
      using rems by (simp add: same)
    have ld1: "load_slot (Next_slot p) (?cs1, head) = next (cs ! q)"
      by (simp add: load_slot_def up)
    have si1: "\<forall>j. slot_index (Next_slot p) = Some j \<longrightarrow> j < length ?cs1 \<and> j \<notin> set qs"
      using ql dq by (simp add: slot_index_def up)
    have lc1: "length ?cs1 \<le> length cooked * ?n" using lc by simp
    from Cons.IH [OF ch1 dq(2) rems1 ld1 si1 lc1]
    obtain cooked' cs' head' where
      run: "sparse_settle cfg e raw (Next_slot p) (next (cs ! q)) cooked (?cs1, head) =
              Some (Inr (cooked', cs', head'))"
      and post: "settle_post cfg e raw (Next_slot p) qs cooked ?cs1 head (cooked', cs', head')"
      by auto
    from post have l: "length cs' = length cs" "length cooked' = length cooked"
      and chain': "sparse_chain cs' (next (cs' ! q)) (filter (?keep ?cs1) qs)"
      and head': "head' = head"
      and frame: "\<And>j. j \<notin> set qs \<Longrightarrow> debounce_counter_t.remaining (cs' ! j) = debounce_counter_t.remaining (?cs1 ! j)"
        "\<And>j. j \<notin> set qs \<Longrightarrow> j \<noteq> q \<Longrightarrow> next (cs' ! j) = next (?cs1 ! j)"
      and nodes: "\<forall>q'\<in>set qs. debounce_counter_t.remaining (cs' ! q') =
          (if ?keep ?cs1 q' then debounce_counter_t.remaining (?cs1 ! q') - e else 0)"
      and bits: "\<forall>r<length cooked. \<forall>c. bit (cooked' ! r) c =
          (if c < ?n \<and> r * ?n + c \<in> set qs \<and> \<not> ?keep ?cs1 (r * ?n + c)
           then bit (raw ! r) c else bit (cooked ! r) c)"
      by (simp_all add: settle_post_def load_slot_def slot_index_def up)
    have filt: "filter (?keep ?cs1) qs = filter (?keep cs) qs"
      by (rule filter_cong) (simp_all add: same)
    have ldp: "load_slot pp (cs', head') = p"
    proof (cases pp)
      case Head_slot
      then show ?thesis using ld head' by (simp add: load_slot_def)
    next
      case (Next_slot q0)
      with si have "unat q0 \<noteq> q" "unat q0 \<notin> set qs" by (simp_all add: slot_index_def)
      then have "next (cs' ! unat q0) = next (cs ! unat q0)" using frame(2) by simp
      then show ?thesis using ld Next_slot by (simp add: load_slot_def)
    qed
    have "settle_post cfg e raw pp (q # qs) cooked cs head (cooked', cs', head')"
      unfolding settle_post_def prod.case
    proof (intro conjI allI impI ballI)
      show "sparse_chain cs' (load_slot pp (cs', head')) (filter (?keep cs) (q # qs))"
        using True chain' pn up ql l by (simp add: ldp filt)
    next
      fix j assume j: "j \<notin> set (q # qs)"
      then show "debounce_counter_t.remaining (cs' ! j) = debounce_counter_t.remaining (cs ! j)" using frame(1) [of j] by simp
      assume "slot_index pp \<noteq> Some j"
      from j show "next (cs' ! j) = next (cs ! j)" using frame(2) [of j] by simp
    next
      fix q' assume "q' \<in> set (q # qs)"
      then show "debounce_counter_t.remaining (cs' ! q') = (if ?keep cs q' then debounce_counter_t.remaining (cs ! q') - e else 0)"
        using nodes same frame(1) [of q] dq(1) True ql by (cases "q' = q") auto
    next
      fix r c assume "r < length cooked"
      then show "bit (cooked' ! r) c =
          (if c < ?n \<and> r * ?n + c \<in> set (q # qs) \<and> \<not> ?keep cs (r * ?n + c)
           then bit (raw ! r) c else bit (cooked ! r) c)"
        using bits same True by (cases "r * ?n + c = q") auto
    qed (use l head' in simp_all)
    with unfold run show ?thesis by simp
  next
    case False
    let ?p' = "next (cs ! q)"
    let ?ck1 = "sparse_commit cfg raw p cooked"
    obtain cs2 head2 where ul: "sparse_unlink pp p (cs, head) = (cs2, head2)"
      by (cases "sparse_unlink pp p (cs, head)")
    have unfold: "sparse_settle cfg e raw pp p cooked (cs, head) =
        sparse_settle cfg e raw pp ?p' ?ck1 (cs2, head2)"
      using pn up ql rem False by (subst sparse_settle.simps) (simp add: ul)
    have l2: "length cs2 = length cs"
      using ul by (auto simp add: sparse_unlink_def store_slot_def split: slot.splits)
    have head2: "pp \<noteq> Head_slot \<Longrightarrow> head2 = head"
      using ul by (auto simp add: sparse_unlink_def store_slot_def split: slot.splits)
    have q2: "debounce_counter_t.remaining (cs2 ! q) = 0"
      using ul ql by (auto simp add: sparse_unlink_def store_slot_def up split: slot.splits)
    have rem2: "\<And>j. j \<noteq> q \<Longrightarrow> debounce_counter_t.remaining (cs2 ! j) = debounce_counter_t.remaining (cs ! j)"
      using ul by (auto simp add: sparse_unlink_def store_slot_def up split: slot.splits)
    have next2: "\<And>j. j \<noteq> q \<Longrightarrow> slot_index pp \<noteq> Some j \<Longrightarrow> next (cs2 ! j) = next (cs ! j)"
      using ul by (auto simp add: sparse_unlink_def store_slot_def up slot_index_def
          split: slot.splits)
    have ld2: "load_slot pp (cs2, head2) = ?p'"
      using ul si by (auto simp add: sparse_unlink_def store_slot_def up slot_index_def
          load_slot_def split: slot.splits)
    have nx: "next (cs2 ! q') = next (cs ! q')" if "q' \<in> set qs" for q'
    proof -
      from that have "q' \<noteq> q" "slot_index pp \<noteq> Some q'" using dq(1) si by auto
      then show ?thesis by (rule next2)
    qed
    have ch2: "sparse_chain cs2 ?p' qs"
      using ch chain_cong [OF l2 nx, of qs ?p'] by simp
    have same: "debounce_counter_t.remaining (cs2 ! q') = debounce_counter_t.remaining (cs ! q')"
      if "q' \<in> set qs" for q'
    proof -
      from that have "q' \<noteq> q" using dq(1) by auto
      then show ?thesis by (rule rem2)
    qed
    have rems2: "\<forall>q'\<in>set qs. debounce_counter_t.remaining (cs2 ! q') \<noteq> 0"
      using rems by (simp add: same)
    have si2: "\<forall>j. slot_index pp = Some j \<longrightarrow> j < length cs2 \<and> j \<notin> set qs"
      using si l2 by simp
    have lc2: "length cs2 \<le> length ?ck1 * ?n" using lc l2 by simp
    from Cons.IH [OF ch2 dq(2) rems2 ld2 si2 lc2]
    obtain cooked' cs' head' where
      run: "sparse_settle cfg e raw pp ?p' ?ck1 (cs2, head2) = Some (Inr (cooked', cs', head'))"
      and post: "settle_post cfg e raw pp qs ?ck1 cs2 head2 (cooked', cs', head')"
      by auto
    from post have l: "length cs' = length cs2" "length cooked' = length cooked"
      and chain': "sparse_chain cs' (load_slot pp (cs', head')) (filter (?keep cs2) qs)"
      and head': "pp \<noteq> Head_slot \<longrightarrow> head' = head2"
      and frame: "\<And>j. j \<notin> set qs \<Longrightarrow> debounce_counter_t.remaining (cs' ! j) = debounce_counter_t.remaining (cs2 ! j)"
        "\<And>j. j \<notin> set qs \<Longrightarrow> slot_index pp \<noteq> Some j \<Longrightarrow> next (cs' ! j) = next (cs2 ! j)"
      and nodes: "\<forall>q'\<in>set qs. debounce_counter_t.remaining (cs' ! q') =
          (if ?keep cs2 q' then debounce_counter_t.remaining (cs2 ! q') - e else 0)"
      and bits: "\<forall>r<length cooked. \<forall>c. bit (cooked' ! r) c =
          (if c < ?n \<and> r * ?n + c \<in> set qs \<and> \<not> ?keep cs2 (r * ?n + c)
           then bit (raw ! r) c else bit (?ck1 ! r) c)"
      by (simp_all add: settle_post_def)
    have filt: "filter (?keep cs2) qs = filter (?keep cs) qs"
      by (rule filter_cong) (simp_all add: same)
    have "settle_post cfg e raw pp (q # qs) cooked cs head (cooked', cs', head')"
      unfolding settle_post_def prod.case
    proof (intro conjI allI impI ballI)
      show "sparse_chain cs' (load_slot pp (cs', head')) (filter (?keep cs) (q # qs))"
        using False chain' by (simp add: filt)
    next
      assume "pp \<noteq> Head_slot"
      then show "head' = head" using head' head2 by simp
    next
      fix j assume j: "j \<notin> set (q # qs)"
      then show "debounce_counter_t.remaining (cs' ! j) = debounce_counter_t.remaining (cs ! j)"
        using frame(1) [of j] rem2 [of j] by simp
      assume "slot_index pp \<noteq> Some j"
      with j show "next (cs' ! j) = next (cs ! j)"
        using frame(2) [of j] next2 [of j] by simp
    next
      fix q' assume "q' \<in> set (q # qs)"
      then show "debounce_counter_t.remaining (cs' ! q') = (if ?keep cs q' then debounce_counter_t.remaining (cs ! q') - e else 0)"
        using nodes same frame(1) [of q] dq(1) False q2 by (cases "q' = q") auto
    next
      fix r c assume r: "r < length cooked"
      have "bit (?ck1 ! r) c =
          (if c < ?n \<and> r * ?n + c = q then bit (raw ! r) c else bit (cooked ! r) c)"
        using sparse_commit_bits [OF n r, of p raw c] qrow by (simp add: up)
      then show "bit (cooked' ! r) c =
          (if c < ?n \<and> r * ?n + c \<in> set (q # qs) \<and> \<not> ?keep cs (r * ?n + c)
           then bit (raw ! r) c else bit (cooked ! r) c)"
        using bits r same False dq(1) by (cases "r * ?n + c = q") auto
    qed (use l l2 in simp_all)
    with unfold run show ?thesis by simp
  qed
qed

lemma u8_index: "i < 255 \<Longrightarrow> (of_nat i :: 8 word) \<noteq> DEBOUNCE_NULL \<and> unat (of_nat i :: 8 word) = i"
proof -
  assume i: "i < 255"
  then have "unat (of_nat i :: 8 word) = i" by (simp add: u8_of_nat)
  moreover have "unat DEBOUNCE_NULL = 255" by (simp add: DEBOUNCE_NULL_def)
  ultimately show ?thesis using i by auto
qed

lemma u8_add_nonzero:
  fixes x e :: "8 word"
  assumes "x \<noteq> 0" "unat x + unat e < 256"
  shows "x + e \<noteq> 0"
proof -
  have "unat (x + e) = unat x + unat e" using assms(2) by (simp add: unat_word_ariths)
  moreover have "unat x \<noteq> 0" using assms(1) by (simp add: unat_eq_0)
  ultimately show ?thesis by (metis add_is_0 unat_0)
qed

lemma word_xor_zero:
  fixes x y :: "'a::len word"
  assumes "x XOR y = 0"
  shows "x = y"
proof (rule bit_eqI)
  fix n
  from assms have "bit (x XOR y) n = bit (0 :: 'a word) n" by simp
  then show "bit x n = bit y n" by (simp add: bit_xor_iff)
qed

lemma sparse_arm_col_step:
  fixes cooked :: "'a::len word list"
  assumes inv: "arm_inv cfg e raw cooked cs0 (row * MATRIX_COLS cfg + col) s"
    and col: "col < MATRIX_COLS cfg"
    and len: "row * MATRIX_COLS cfg + col < length cs0" "length cs0 < 255"
    and w: "window_ok cfg"
    and nowrap: "\<forall>j<length cs0. debounce_counter_t.remaining (cs0 ! j) \<noteq> 0 \<longrightarrow>
                   unat (debounce_counter_t.remaining (cs0 ! j)) + unat e < 256"
  shows "arm_inv cfg e raw cooked cs0 (Suc (row * MATRIX_COLS cfg + col))
           (sparse_arm_col cfg e (cooked ! row) (raw ! row) col s)"
proof -
  obtain p cs head where s: "s = (p, cs, head)" by (cases s)
  let ?n = "MATRIX_COLS cfg"
  define i where "i = row * ?n + col"
  let ?rem = "debounce_counter_t.remaining"
  let ?cell = "\<lambda>j. sparse_arm_cell cfg e (bit (raw ! (j div ?n)) (j mod ?n))
          (bit (cooked ! (j div ?n)) (j mod ?n)) (?rem (cs0 ! j))"
  from inv have p: "p = i" and lcs: "length cs = length cs0" and listed: "sparse_listed cs head"
    and before: "\<forall>j<i. ?rem (cs ! j) = ?cell j"
    and rest: "\<forall>j\<ge>i. ?rem (cs ! j) = ?rem (cs0 ! j)"
    by (simp_all add: arm_inv_def s i_def)
  from listed obtain ps where ch: "sparse_chain cs head ps" and dist: "distinct ps"
    and mem: "\<forall>i<length cs. i \<in> set ps \<longleftrightarrow> ?rem (cs ! i) \<noteq> 0"
    by (auto simp add: sparse_listed_def)
  have i: "i < length cs" using len lcs by (simp add: i_def)
  have i255: "i < 255" using len by (simp add: i_def)
  have rc: "i div ?n = row" "i mod ?n = col" using col by (simp_all add: i_def)
  have cur: "?rem (cs ! i) = ?rem (cs0 ! i)" using rest by simp
  have test: "(push_bit col 1 AND (cooked ! row XOR raw ! row) \<noteq> 0) =
      (bit (raw ! row) col \<noteq> bit (cooked ! row) col)"
    "(push_bit col 1 AND raw ! row \<noteq> 0) = bit (raw ! row) col"
    by (auto simp add: mask_test2' bit_xor_iff)
  have nth_other: "\<And>j v. j \<noteq> i \<Longrightarrow> cs[i := v] ! j = cs ! j" by simp
  consider (link) "bit (raw ! row) col \<noteq> bit (cooked ! row) col" "?rem (cs ! i) = 0"
    | (extend) "bit (raw ! row) col \<noteq> bit (cooked ! row) col" "?rem (cs ! i) \<noteq> 0"
    | (same) "bit (raw ! row) col = bit (cooked ! row) col"
    by blast
  then have "arm_inv cfg e raw cooked cs0 (Suc i)
           (sparse_arm_col cfg e (cooked ! row) (raw ! row) col s)"
  proof cases
    case link
    define wv :: "8 word" where
      "wv = (if bit (raw ! row) col then of_nat (DEBOUNCE_DOWN cfg) else of_nat (DEBOUNCE_UP cfg))"
    let ?cs = "cs[i := \<lparr>debounce_counter_t.remaining = wv, next = head\<rparr>]"
    have res: "sparse_arm_col cfg e (cooked ! row) (raw ! row) col s = (Suc i, ?cs, of_nat i)"
      using link by (simp add: sparse_arm_col_def s p Let_def test wv_def del: push_bit_of_1)
    have wnz: "wv \<noteq> 0" using window_ok_nonzero [OF w] by (simp add: wv_def)
    have notin: "i \<notin> set ps" using mem i link(2) by simp
    have idx: "(of_nat i :: 8 word) \<noteq> DEBOUNCE_NULL" "unat (of_nat i :: 8 word) = i"
      using u8_index [OF i255] by simp_all
    have "sparse_chain ?cs head ps = sparse_chain cs head ps"
    proof (rule chain_cong)
      fix q assume "q \<in> set ps"
      then have "q \<noteq> i" using notin by auto
      then show "next (?cs ! q) = next (cs ! q)" by simp
    qed simp
    then have ch': "sparse_chain ?cs (of_nat i) (i # ps)"
      using idx i ch by simp
    have mem': "\<forall>j<length ?cs. j \<in> set (i # ps) \<longleftrightarrow> ?rem (?cs ! j) \<noteq> 0"
      using mem wnz i by (simp add: nth_list_update)
    have listed': "sparse_listed ?cs (of_nat i)"
      unfolding sparse_listed_def
    proof (intro exI conjI)
      show "sparse_chain ?cs (of_nat i) (i # ps)" by (fact ch')
      show "distinct (i # ps)" using dist notin by simp
      show "\<forall>j<length ?cs. j \<in> set (i # ps) \<longleftrightarrow> ?rem (?cs ! j) \<noteq> 0" by (fact mem')
    qed
    have new: "?rem (?cs ! i) = ?cell i"
      using link i cur by (simp add: sparse_arm_cell_def rc wv_def)
    show ?thesis
      unfolding res arm_inv_def prod.case
    proof (intro conjI allI impI)
      fix j assume "j < Suc i"
      then show "?rem (?cs ! j) = ?cell j"
        using before new nth_other by (cases "j = i") (simp_all del: nth_list_update_eq)
    next
      fix j assume "Suc i \<le> j"
      then show "?rem (?cs ! j) = ?rem (cs0 ! j)" using rest by simp
    qed (use lcs listed' in simp_all)
  next
    case extend
    let ?cs = "cs[i := (cs ! i)\<lparr>debounce_counter_t.remaining := ?rem (cs ! i) + e\<rparr>]"
    have res: "sparse_arm_col cfg e (cooked ! row) (raw ! row) col s = (Suc i, ?cs, head)"
      using extend by (simp add: sparse_arm_col_def s p Let_def test del: push_bit_of_1)
    have "unat (?rem (cs ! i)) + unat e < 256" using nowrap extend(2) cur i lcs by simp
    then have nz: "?rem (cs ! i) + e \<noteq> 0" using extend(2) by (intro u8_add_nonzero)
    have ch': "sparse_chain ?cs head ps"
      using ch chain_cong [of ?cs cs ps head] by simp
    have mem': "\<forall>j<length ?cs. j \<in> set ps \<longleftrightarrow> ?rem (?cs ! j) \<noteq> 0"
      using mem nz extend(2) i by (simp add: nth_list_update)
    have listed': "sparse_listed ?cs head"
      unfolding sparse_listed_def
    proof (intro exI conjI)
      show "sparse_chain ?cs head ps" by (fact ch')
      show "distinct ps" by (fact dist)
      show "\<forall>j<length ?cs. j \<in> set ps \<longleftrightarrow> ?rem (?cs ! j) \<noteq> 0" by (fact mem')
    qed
    have new: "?rem (?cs ! i) = ?cell i"
      using extend i cur by (simp add: sparse_arm_cell_def rc)
    show ?thesis
      unfolding res arm_inv_def prod.case
    proof (intro conjI allI impI)
      fix j assume "j < Suc i"
      then show "?rem (?cs ! j) = ?cell j"
        using before new nth_other by (cases "j = i") (simp_all del: nth_list_update_eq)
    next
      fix j assume "Suc i \<le> j"
      then show "?rem (?cs ! j) = ?rem (cs0 ! j)" using rest by simp
    qed (use lcs listed' in simp_all)
  next
    case same
    have res: "sparse_arm_col cfg e (cooked ! row) (raw ! row) col s = (Suc i, cs, head)"
      using same by (simp add: sparse_arm_col_def s p Let_def test del: push_bit_of_1)
    have new: "?rem (cs ! i) = ?cell i"
      using same cur by (simp add: sparse_arm_cell_def rc)
    show ?thesis
      unfolding res arm_inv_def prod.case
    proof (intro conjI allI impI)
      fix j assume "j < Suc i"
      then show "?rem (cs ! j) = ?cell j"
        using before new by (cases "j = i") simp_all
    next
      fix j assume "Suc i \<le> j"
      then show "?rem (cs ! j) = ?rem (cs0 ! j)" using rest by simp
    qed (use lcs listed in simp_all)
  qed
then show ?thesis by (simp only: i_def)
qed

lemma sparse_arm_cols_fold:
  fixes cooked :: "'a::len word list"
  assumes k: "k \<le> MATRIX_COLS cfg"
    and inv: "arm_inv cfg e raw cooked cs0 (row * MATRIX_COLS cfg) s"
    and len: "row * MATRIX_COLS cfg + MATRIX_COLS cfg \<le> length cs0" "length cs0 < 255"
    and w: "window_ok cfg"
    and nowrap: "\<forall>j<length cs0. debounce_counter_t.remaining (cs0 ! j) \<noteq> 0 \<longrightarrow>
                   unat (debounce_counter_t.remaining (cs0 ! j)) + unat e < 256"
  shows "arm_inv cfg e raw cooked cs0 (row * MATRIX_COLS cfg + k)
           (fold (sparse_arm_col cfg e (cooked ! row) (raw ! row)) [0..<k] s)"
  using k
proof (induction k)
  case 0
  show ?case using inv by simp
next
  case (Suc k)
  then have "arm_inv cfg e raw cooked cs0 (row * MATRIX_COLS cfg + k)
           (fold (sparse_arm_col cfg e (cooked ! row) (raw ! row)) [0..<k] s)" by simp
  from sparse_arm_col_step [OF this _ _ len(2) w nowrap] Suc.prems len(1) show ?case by simp
qed

lemma sparse_arm_row_step:
  fixes cooked :: "'a::len word list"
  assumes inv: "arm_inv cfg e raw cooked cs0 (row * MATRIX_COLS cfg) s"
    and len: "row * MATRIX_COLS cfg + MATRIX_COLS cfg \<le> length cs0" "length cs0 < 255"
    and w: "window_ok cfg"
    and nowrap: "\<forall>j<length cs0. debounce_counter_t.remaining (cs0 ! j) \<noteq> 0 \<longrightarrow>
                   unat (debounce_counter_t.remaining (cs0 ! j)) + unat e < 256"
  shows "arm_inv cfg e raw cooked cs0 (Suc row * MATRIX_COLS cfg)
           (sparse_arm_row cfg e raw cooked row s)"
proof (cases "cooked ! row XOR raw ! row = 0")
  case True
  obtain p cs head where s: "s = (p, cs, head)" by (cases s)
  let ?n = "MATRIX_COLS cfg"
  let ?rem = "debounce_counter_t.remaining"
  from inv have p: "p = row * ?n" and lcs: "length cs = length cs0"
    and listed: "sparse_listed cs head"
    and before: "\<forall>j<row * ?n. ?rem (cs ! j) =
        sparse_arm_cell cfg e (bit (raw ! (j div ?n)) (j mod ?n))
          (bit (cooked ! (j div ?n)) (j mod ?n)) (?rem (cs0 ! j))"
    and rest: "\<forall>j\<ge>row * ?n. ?rem (cs ! j) = ?rem (cs0 ! j)"
    by (simp_all add: arm_inv_def s)
  have res: "sparse_arm_row cfg e raw cooked row s = (Suc row * ?n, cs, head)"
    using True by (simp add: sparse_arm_row_def s p Let_def)
  have eq: "cooked ! row = raw ! row" using True by (rule word_xor_zero)
  show ?thesis
    unfolding res arm_inv_def prod.case
  proof (intro conjI allI impI)
    fix j assume j: "j < Suc row * ?n"
    show "?rem (cs ! j) = sparse_arm_cell cfg e (bit (raw ! (j div ?n)) (j mod ?n))
          (bit (cooked ! (j div ?n)) (j mod ?n)) (?rem (cs0 ! j))"
    proof (cases "j < row * ?n")
      case True
      then show ?thesis using before by simp
    next
      case False
      then have "j div ?n = row" using j
        by (metis (no_types) div_nat_eqI linorder_not_less mult.commute)
      then show ?thesis using False rest eq by (simp add: sparse_arm_cell_def)
    qed
  next
    fix j assume "Suc row * ?n \<le> j"
    then show "?rem (cs ! j) = ?rem (cs0 ! j)" using rest by simp
  qed (use lcs listed in simp_all)
next
  case False
  obtain p cs head where s: "s = (p, cs, head)" by (cases s)
  have "sparse_arm_row cfg e raw cooked row s =
      fold (sparse_arm_col cfg e (cooked ! row) (raw ! row)) [0..<MATRIX_COLS cfg] s"
    using False by (auto simp add: sparse_arm_row_def s Let_def)
  then show ?thesis
    using sparse_arm_cols_fold [OF order_refl inv len w nowrap] by (simp add: add.commute)
qed

lemma sparse_arm_rows_fold:
  fixes cooked :: "'a::len word list"
  assumes k: "k \<le> num_rows"
    and listed: "sparse_listed cs0 head0"
    and len: "length cs0 = num_rows * MATRIX_COLS cfg" "length cs0 < 255"
    and w: "window_ok cfg"
    and nowrap: "\<forall>j<length cs0. debounce_counter_t.remaining (cs0 ! j) \<noteq> 0 \<longrightarrow>
                   unat (debounce_counter_t.remaining (cs0 ! j)) + unat e < 256"
  shows "arm_inv cfg e raw cooked cs0 (k * MATRIX_COLS cfg)
           (fold (sparse_arm_row cfg e raw cooked) [0..<k] (0, cs0, head0))"
  using k
proof (induction k)
  case 0
  show ?case using listed by (simp add: arm_inv_def)
next
  case (Suc k)
  then have inv: "arm_inv cfg e raw cooked cs0 (k * MATRIX_COLS cfg)
           (fold (sparse_arm_row cfg e raw cooked) [0..<k] (0, cs0, head0))" by simp
  have "k * MATRIX_COLS cfg + MATRIX_COLS cfg \<le> length cs0"
    using Suc.prems len(1) mult_le_mono1 [of "Suc k" num_rows "MATRIX_COLS cfg"] by simp
  from sparse_arm_row_step [OF inv this len(2) w nowrap] show ?case by simp
qed

lemma sparse_get_elapsed_frame:
  "debounce_counters (snd (sparse_get_elapsed now g)) = debounce_counters g"
  "debounce_list_head (snd (sparse_get_elapsed now g)) = debounce_list_head g"
  "sparse.last_time_initialized (snd (sparse_get_elapsed now g))"
  "sparse.last_time (snd (sparse_get_elapsed now g)) = now"
  by (simp_all add: sparse_get_elapsed_def Let_def)

lemma u8_sub_nonzero: "e < x \<Longrightarrow> x - e \<noteq> 0" for x e :: "8 word"
  by auto

lemma u8_sub_nowrap: "e < x \<Longrightarrow> unat (x - e) + unat e < 256" for x e :: "8 word"
proof -
  assume a: "e < x"
  then have "unat (x - e) = unat x - unat e" by (rule u8_sub)
  moreover have "unat e < unat x" using a by (simp add: word_less_nat_alt)
  moreover have "unat x < 256" using unsigned_less [of x] by simp
  ultimately show ?thesis by simp
qed

text \<open>The settle pass on a well-formed list.\<close>

lemma sparse_settle_listed:
  fixes cooked :: "'a::len word list"
  assumes n: "0 < MATRIX_COLS cfg"
    and listed: "sparse_listed cs head"
    and len: "length cs = num_rows * MATRIX_COLS cfg" "num_rows \<le> length cooked"
  obtains cooked1 cs1 head1 where
    "sparse_settle cfg e raw Head_slot head cooked (cs, head) = Some (Inr (cooked1, cs1, head1))"
    "length cs1 = length cs" "length cooked1 = length cooked"
    "sparse_listed cs1 head1"
    "\<forall>j<length cs1. debounce_counter_t.remaining (cs1 ! j) \<noteq> 0 \<longrightarrow>
        unat (debounce_counter_t.remaining (cs1 ! j)) + unat e < 256"
    "\<forall>r<length cooked. \<forall>c. r * MATRIX_COLS cfg + c < length cs \<longrightarrow> c < MATRIX_COLS cfg \<longrightarrow>
        (bit (cooked1 ! r) c, debounce_counter_t.remaining (cs1 ! (r * MATRIX_COLS cfg + c))) =
        (let rem = debounce_counter_t.remaining (cs ! (r * MATRIX_COLS cfg + c))
         in if rem = 0 then (bit (cooked ! r) c, rem)
            else if rem > e then (bit (cooked ! r) c, rem - e)
            else (bit (raw ! r) c, 0))"
    "\<forall>r<length cooked. \<forall>c. \<not> (r * MATRIX_COLS cfg + c < length cs \<and> c < MATRIX_COLS cfg) \<longrightarrow>
        bit (cooked1 ! r) c = bit (cooked ! r) c"
proof -
  let ?n = "MATRIX_COLS cfg"
  let ?rem = "debounce_counter_t.remaining"
  from listed obtain ps where ch: "sparse_chain cs head ps" and dist: "distinct ps"
    and mem: "\<forall>i<length cs. i \<in> set ps \<longleftrightarrow> ?rem (cs ! i) \<noteq> 0"
    by (auto simp add: sparse_listed_def)
  have inr: "\<And>q. q \<in> set ps \<Longrightarrow> q < length cs" using ch by (rule chain_in_range)
  have pos: "\<forall>q\<in>set ps. ?rem (cs ! q) \<noteq> 0" using mem inr by auto
  have lc: "length cs \<le> length cooked * ?n" using len by simp
  from sparse_settle_chain [OF n ch dist pos _ _ lc, of Head_slot head e raw]
  obtain cooked1 cs1 head1 where
    run: "sparse_settle cfg e raw Head_slot head cooked (cs, head) = Some (Inr (cooked1, cs1, head1))"
    and post: "settle_post cfg e raw Head_slot ps cooked cs head (cooked1, cs1, head1)"
    by (auto simp add: load_slot_def slot_index_def)
  from post have l: "length cs1 = length cs" "length cooked1 = length cooked"
    and ch1: "sparse_chain cs1 head1 (filter (\<lambda>q. ?rem (cs ! q) > e) ps)"
    and frame: "\<And>j. j \<notin> set ps \<Longrightarrow> ?rem (cs1 ! j) = ?rem (cs ! j)"
    and nodes: "\<And>q. q \<in> set ps \<Longrightarrow> ?rem (cs1 ! q) = (if ?rem (cs ! q) > e then ?rem (cs ! q) - e else 0)"
    and bits: "\<And>r c. r < length cooked \<Longrightarrow> bit (cooked1 ! r) c =
        (if c < ?n \<and> r * ?n + c \<in> set ps \<and> \<not> ?rem (cs ! (r * ?n + c)) > e
         then bit (raw ! r) c else bit (cooked ! r) c)"
    by (simp_all add: settle_post_def load_slot_def)
  have rem1: "?rem (cs1 ! j) =
      (if ?rem (cs ! j) = 0 then 0 else if ?rem (cs ! j) > e then ?rem (cs ! j) - e else 0)"
    if "j < length cs" for j
  proof (cases "j \<in> set ps")
    case True
    then show ?thesis using nodes [OF True] mem that by auto
  next
    case False
    then show ?thesis using frame [OF False] mem that by auto
  qed
  have mem1: "\<forall>i<length cs1. i \<in> set (filter (\<lambda>q. ?rem (cs ! q) > e) ps) \<longleftrightarrow> ?rem (cs1 ! i) \<noteq> 0"
  proof (intro allI impI)
    fix i assume "i < length cs1"
    then have i: "i < length cs" using l by simp
    show "i \<in> set (filter (\<lambda>q. ?rem (cs ! q) > e) ps) \<longleftrightarrow> ?rem (cs1 ! i) \<noteq> 0"
      using rem1 [OF i] mem i u8_sub_nonzero [of e "?rem (cs ! i)"] by auto
  qed
  have listed1: "sparse_listed cs1 head1"
    unfolding sparse_listed_def
  proof (intro exI conjI)
    show "sparse_chain cs1 head1 (filter (\<lambda>q. ?rem (cs ! q) > e) ps)" by (fact ch1)
    show "distinct (filter (\<lambda>q. ?rem (cs ! q) > e) ps)" using dist by simp
    show "\<forall>i<length cs1. i \<in> set (filter (\<lambda>q. ?rem (cs ! q) > e) ps) \<longleftrightarrow> ?rem (cs1 ! i) \<noteq> 0"
      by (fact mem1)
  qed
  have nowrap: "\<forall>j<length cs1. ?rem (cs1 ! j) \<noteq> 0 \<longrightarrow> unat (?rem (cs1 ! j)) + unat e < 256"
  proof (intro allI impI)
    fix j assume "j < length cs1" and nz: "?rem (cs1 ! j) \<noteq> 0"
    then have j: "j < length cs" using l by simp
    from rem1 [OF j] nz have "?rem (cs ! j) > e" "?rem (cs1 ! j) = ?rem (cs ! j) - e"
      by (auto split: if_splits)
    then show "unat (?rem (cs1 ! j)) + unat e < 256" using u8_sub_nowrap by simp
  qed
  have cells: "\<forall>r<length cooked. \<forall>c. r * ?n + c < length cs \<longrightarrow> c < ?n \<longrightarrow>
        (bit (cooked1 ! r) c, ?rem (cs1 ! (r * ?n + c))) =
        (let rem = ?rem (cs ! (r * ?n + c))
         in if rem = 0 then (bit (cooked ! r) c, rem)
            else if rem > e then (bit (cooked ! r) c, rem - e)
            else (bit (raw ! r) c, 0))"
  proof (intro allI impI)
    fix r c assume r: "r < length cooked" and j: "r * ?n + c < length cs" and c: "c < ?n"
    show "(bit (cooked1 ! r) c, ?rem (cs1 ! (r * ?n + c))) =
        (let rem = ?rem (cs ! (r * ?n + c))
         in if rem = 0 then (bit (cooked ! r) c, rem)
            else if rem > e then (bit (cooked ! r) c, rem - e)
            else (bit (raw ! r) c, 0))"
      using bits [OF r, of c] rem1 [OF j] mem j c by (auto simp add: Let_def)
  qed
  have hi: "\<forall>r<length cooked. \<forall>c. \<not> (r * ?n + c < length cs \<and> c < ?n) \<longrightarrow>
        bit (cooked1 ! r) c = bit (cooked ! r) c"
  proof (intro allI impI)
    fix r c assume r: "r < length cooked" and "\<not> (r * ?n + c < length cs \<and> c < ?n)"
    then show "bit (cooked1 ! r) c = bit (cooked ! r) c"
      using bits [OF r, of c] inr by auto
  qed
  from run l listed1 nowrap cells hi show ?thesis by (rule that)
qed

text \<open>
  The whole call on a well-formed state: it returns, without abort, a state that is
  well-formed again, and every cell has moved as \<open>sparse_cell\<close> says.
\<close>

lemma sparse_debounce_cells:
  fixes cooked :: "'a::len word list" and g :: "'t::len word sparse"
  assumes inv: "sparse_inv cfg num_rows g" and n: "0 < MATRIX_COLS cfg"
    and w: "window_ok cfg" and len: "num_rows \<le> length cooked"
  shows "\<exists>s'. sparse_debounce cfg now raw cooked num_rows changed g = Some (Inr s') \<and>
           sparse_call_post cfg num_rows now raw changed cooked g s'"
proof -
  let ?n = "MATRIX_COLS cfg"
  let ?rem = "debounce_counter_t.remaining"
  obtain e g1 where ge: "sparse_get_elapsed now g = (e, g1)" by (cases "sparse_get_elapsed now g")
  have g1: "debounce_counters g1 = debounce_counters g" "debounce_list_head g1 = debounce_list_head g"
    "sparse.last_time_initialized g1" "sparse.last_time g1 = now"
    using sparse_get_elapsed_frame [of now g] by (simp_all add: ge)
  let ?cs = "debounce_counters g" and ?head = "debounce_list_head g"
  from inv have lcs: "length ?cs = num_rows * ?n" and small: "num_rows * ?n < 255"
    and listed: "sparse_listed ?cs ?head"
    by (simp_all add: sparse_inv_def)
  from sparse_settle_listed [OF n listed lcs len, of e raw]
  obtain cooked1 cs1 head1 where
    run: "sparse_settle cfg e raw Head_slot ?head cooked (?cs, ?head) = Some (Inr (cooked1, cs1, head1))"
    and l1: "length cs1 = length ?cs" "length cooked1 = length cooked"
    and listed1: "sparse_listed cs1 head1"
    and nowrap: "\<forall>j<length cs1. ?rem (cs1 ! j) \<noteq> 0 \<longrightarrow> unat (?rem (cs1 ! j)) + unat e < 256"
    and cells1: "\<forall>r<length cooked. \<forall>c. r * ?n + c < length ?cs \<longrightarrow> c < ?n \<longrightarrow>
        (bit (cooked1 ! r) c, ?rem (cs1 ! (r * ?n + c))) =
        (let rem = ?rem (?cs ! (r * ?n + c))
         in if rem = 0 then (bit (cooked ! r) c, rem)
            else if rem > e then (bit (cooked ! r) c, rem - e)
            else (bit (raw ! r) c, 0))"
    and hi1: "\<forall>r<length cooked. \<forall>c. \<not> (r * ?n + c < length ?cs \<and> c < ?n) \<longrightarrow>
        bit (cooked1 ! r) c = bit (cooked ! r) c"
    by blast
  obtain cs2 head2 where arm:
    "(if changed then sparse_arm cfg e raw cooked1 num_rows (cs1, head1) else (cs1, head1)) = (cs2, head2)"
    by (cases "if changed then sparse_arm cfg e raw cooked1 num_rows (cs1, head1) else (cs1, head1)")
  have idx: "r * ?n + c < length ?cs" if "r < num_rows" "c < ?n" for r c
    using cell_index_less [OF that] lcs by simp
  have a: "length cs2 = length cs1 \<and> sparse_listed cs2 head2 \<and>
      (\<forall>j<num_rows * ?n. ?rem (cs2 ! j) =
         (if changed then sparse_arm_cell cfg e (bit (raw ! (j div ?n)) (j mod ?n))
            (bit (cooked1 ! (j div ?n)) (j mod ?n)) (?rem (cs1 ! j))
          else ?rem (cs1 ! j)))"
  proof (cases changed)
    case False
    then show ?thesis using arm listed1 by auto
  next
    case True
    let ?f = "fold (sparse_arm_row cfg e raw cooked1) [0..<num_rows] (0, cs1, head1)"
    have lcs1: "length cs1 = num_rows * ?n" "length cs1 < 255" using l1 lcs small by simp_all
    have "arm_inv cfg e raw cooked1 cs1 (num_rows * ?n) ?f"
      by (rule sparse_arm_rows_fold [OF order_refl listed1 lcs1 w nowrap])
    moreover have "?f = (fst ?f, cs2, head2)"
      using arm True by (simp add: sparse_arm_def prod_eq_iff)
    ultimately have "arm_inv cfg e raw cooked1 cs1 (num_rows * ?n) (fst ?f, cs2, head2)" by simp
    then show ?thesis using True by (simp add: arm_inv_def)
  qed
  then have l2: "length cs2 = length cs1" and listed2: "sparse_listed cs2 head2"
    and cells2: "\<And>j. j < num_rows * ?n \<Longrightarrow> ?rem (cs2 ! j) =
         (if changed then sparse_arm_cell cfg e (bit (raw ! (j div ?n)) (j mod ?n))
            (bit (cooked1 ! (j div ?n)) (j mod ?n)) (?rem (cs1 ! j))
          else ?rem (cs1 ! j))"
    by simp_all
  let ?g' = "g1\<lparr>debounce_counters := cs2, debounce_list_head := head2\<rparr>"
  have res: "sparse_debounce cfg now raw cooked num_rows changed g = Some (Inr (cooked1, ?g'))"
    using run arm by (simp add: sparse_debounce_def ge g1)
  have inv': "sparse_inv cfg num_rows ?g'"
    using l2 l1 lcs small listed2 by (simp add: sparse_inv_def)
  have cells: "(bit (cooked1 ! r) c, ?rem (debounce_counters ?g' ! (r * ?n + c))) =
       sparse_cell cfg changed (fst (sparse_get_elapsed now g)) (bit (raw ! r) c)
         (bit (cooked ! r) c, ?rem (?cs ! (r * ?n + c)))"
    if r: "r < num_rows" and c: "c < ?n" for r c
  proof -
    have j: "r * ?n + c < num_rows * ?n" using r c by (rule cell_index_less)
    have rc: "(r * ?n + c) div ?n = r" "(r * ?n + c) mod ?n = c" using c by simp_all
    have r': "r < length cooked" using r len by simp
    from cells1 r' idx [OF r c] c
    have c1: "(bit (cooked1 ! r) c, ?rem (cs1 ! (r * ?n + c))) =
        (let rem = ?rem (?cs ! (r * ?n + c))
         in if rem = 0 then (bit (cooked ! r) c, rem)
            else if rem > e then (bit (cooked ! r) c, rem - e)
            else (bit (raw ! r) c, 0))" by blast
    have c2: "?rem (cs2 ! (r * ?n + c)) =
         (if changed then sparse_arm_cell cfg e (bit (raw ! r) c) (bit (cooked1 ! r) c)
            (?rem (cs1 ! (r * ?n + c)))
          else ?rem (cs1 ! (r * ?n + c)))"
      using cells2 [OF j] unfolding rc .
    show ?thesis
      using c1 c2 by (auto simp add: sparse_cell_def ge Let_def split: if_splits)
  qed
  have hi: "bit (cooked1 ! r) c = bit (cooked ! r) c" if "r < num_rows" "?n \<le> c" for r c
    using hi1 that len by simp
  have rows: "cooked1 ! r = cooked ! r" if r: "num_rows \<le> r" "r < length cooked" for r
  proof (rule bit_eqI)
    fix c
    have "num_rows * ?n \<le> r * ?n" using r(1) by (rule mult_le_mono1)
    then have "\<not> r * ?n + c < num_rows * ?n" by linarith
    then have "\<not> (r * ?n + c < length ?cs \<and> c < ?n)" by (simp only: lcs simp_thms)
    then show "bit (cooked1 ! r) c = bit (cooked ! r) c" using hi1 r(2) by simp
  qed
  have "sparse_call_post cfg num_rows now raw changed cooked g (cooked1, ?g')"
    unfolding sparse_call_post_def prod.case
  proof (intro conjI allI impI)
    show "sparse_inv cfg num_rows ?g'" by (fact inv')
    show "length cooked1 = length cooked" by (fact l1(2))
    show "sparse.last_time_initialized ?g'" using g1 by simp
    show "sparse.last_time ?g' = now" using g1 by simp
  next
    fix r c assume "r < num_rows" "c < ?n"
    then show "(bit (cooked1 ! r) c, ?rem (debounce_counters ?g' ! (r * ?n + c))) =
       sparse_cell cfg changed (fst (sparse_get_elapsed now g)) (bit (raw ! r) c)
         (bit (cooked ! r) c, ?rem (?cs ! (r * ?n + c)))" by (rule cells)
  next
    fix r c assume "r < num_rows" "?n \<le> c"
    then show "bit (cooked1 ! r) c = bit (cooked ! r) c" by (rule hi)
  next
    fix r assume "num_rows \<le> r \<and> r < length cooked"
    then show "cooked1 ! r = cooked ! r" using rows by blast
  qed
  with res show ?thesis by blast
qed







lemma scan_trace_length [simp]: "length (scan_trace step cs s) = length cs"
  by (induction cs arbitrary: s) simp_all

lemma scan_invariant:
  assumes "P s" and "\<And>c s. c \<in> set cs \<Longrightarrow> P s \<Longrightarrow> P (step c s)"
  shows "(\<forall>s'\<in>set (scan_trace step cs s). P s') \<and> P (fold step cs s)"
  using assms
proof (induction cs arbitrary: s)
  case Nil
  then show ?case by simp
next
  case (Cons c cs)
  have "P (step c s)" using Cons.prems by simp
  moreover have "\<And>c' s. c' \<in> set cs \<Longrightarrow> P s \<Longrightarrow> P (step c' s)" using Cons.prems(2) by simp
  ultimately show ?case using Cons.IH [of "step c s"] by simp
qed

text \<open>One call of the asymmetric engine, seen from one cell.\<close>

lemma asym_scan_cell:
  fixes s :: "'a::len word list \<times> asym"
  assumes ok: "asym_ok cfg num_rows s" and cols: "MATRIX_COLS cfg < 256" and w: "window_ok cfg"
    and cell: "row < num_rows" "col < MATRIX_COLS cfg"
  shows "asym_ok cfg num_rows (asym_scan cfg num_rows (now, raw, changed) s)"
    and "asym.last_time (snd (asym_scan cfg num_rows (now, raw, changed) s)) = asym.last_time (snd s)"
    and "asym_view cfg row col (asym_scan cfg num_rows (now, raw, changed) s) =
           asym_cell cfg changed (asym_elapsed now (snd s)) (bit (raw ! row) col)
             (asym_view cfg row col s)"
proof -
  obtain cooked g where s: "s = (cooked, g)" by (cases s)
  obtain cooked' g' where r: "asym_debounce cfg now raw cooked num_rows changed g = (cooked', g')"
    by (cases "asym_debounce cfg now raw cooked num_rows changed g")
  from ok have inv: "asym_inv cfg num_rows g" and len: "num_rows \<le> length cooked"
    by (simp_all add: asym_ok_def s)
  note f = asym_debounce_cells [OF inv cols w len r]
  show "asym_ok cfg num_rows (asym_scan cfg num_rows (now, raw, changed) s)"
    using f(1,2) len by (simp add: asym_ok_def asym_scan_def s r)
  show "asym.last_time (snd (asym_scan cfg num_rows (now, raw, changed) s)) = asym.last_time (snd s)"
    using f(3) by (simp add: asym_scan_def s r)
  show "asym_view cfg row col (asym_scan cfg num_rows (now, raw, changed) s) =
           asym_cell cfg changed (asym_elapsed now (snd s)) (bit (raw ! row) col)
             (asym_view cfg row col s)"
    using f(4) [OF cell] by (simp add: asym_scan_def asym_view_def s r)
qed

lemma asym_init_ok:
  "asym_inv cfg num_rows (asym_debounce_init cfg num_rows now)"
proof -
  have "active_in_row cfg (replicate (num_rows * MATRIX_COLS cfg) \<lparr>count = 0\<rparr>) row = 0" for row
    by (simp add: active_in_row_def)
  then show ?thesis by (simp add: asym_inv_def asym_debounce_init_def)
qed

lemma asym_trace_ok:
  fixes s :: "'a::len word list \<times> asym"
  assumes ok: "asym_ok cfg num_rows s" and cols: "MATRIX_COLS cfg < 256" and w: "window_ok cfg"
  shows "(\<forall>s'\<in>set (scan_trace (asym_scan cfg num_rows) calls s). asym_ok cfg num_rows s') \<and>
         asym_ok cfg num_rows (fold (asym_scan cfg num_rows) calls s)"
proof (rule scan_invariant [where P = "asym_ok cfg num_rows"])
  show "asym_ok cfg num_rows s" by (fact ok)
next
  fix c :: "16 word \<times> 'a word list \<times> bool" and s :: "'a word list \<times> asym"
  assume a: "asym_ok cfg num_rows s"
  obtain now raw changed where c: "c = (now, raw, changed)" by (cases c)
  obtain cooked g where s: "s = (cooked, g)" by (cases s)
  obtain cooked' g' where r: "asym_debounce cfg now raw cooked num_rows changed g = (cooked', g')"
    by (cases "asym_debounce cfg now raw cooked num_rows changed g")
  from a have inv: "asym_inv cfg num_rows g" and len: "num_rows \<le> length cooked"
    by (simp_all add: asym_ok_def s)
  note f = asym_debounce_cells [OF inv cols w len r]
  show "asym_ok cfg num_rows (asym_scan cfg num_rows c s)"
    using f(1,2) len by (simp add: asym_ok_def asym_scan_def s r c)
qed

text \<open>
  C6. In the asymmetric engine, after \<open>debounce_init\<close> and after every call of
  \<open>debounce\<close>, \<open>row_counts[row]\<close> is the number of cells of the row whose \<open>count\<close>
  is not zero (for windows between 1 and 255 and fewer than 256 columns). The row
  count only lets a call skip a row: on such a state the new cooked bit and the new
  counter of every cell are those of \<open>asym_cell\<close>, which does not read the row counts.
\<close>

theorem asym_row_counts_exact:
  fixes cooked :: "'a::len word list"
  assumes "window_ok cfg" and "MATRIX_COLS cfg < 256" and "num_rows \<le> length cooked"
  shows "(\<forall>row<num_rows.
            unat (row_counts (asym_debounce_init cfg num_rows t0) ! row) =
            active_in_row cfg (asym.state (asym_debounce_init cfg num_rows t0)) row) \<and>
         (\<forall>(cooked', g')\<in>set (scan_trace (asym_scan cfg num_rows) calls
                                 (cooked, asym_debounce_init cfg num_rows t0)).
            \<forall>row<num_rows.
              unat (row_counts g' ! row) = active_in_row cfg (asym.state g') row) \<and>
         (\<forall>g. asym_inv cfg num_rows g \<longrightarrow>
            (\<forall>row<num_rows. \<forall>col<MATRIX_COLS cfg.
               asym_view cfg row col (asym_debounce cfg now raw cooked num_rows changed g) =
               asym_cell cfg changed (asym_elapsed now g) (bit (raw ! row) col)
                 (asym_view cfg row col (cooked, g))))"
proof (intro conjI allI impI)
  let ?g0 = "asym_debounce_init cfg num_rows t0"
  have i: "asym_inv cfg num_rows ?g0" by (rule asym_init_ok)
  then have ok: "asym_ok cfg num_rows (cooked, ?g0)" using assms(3) by (simp add: asym_ok_def)
  fix row assume "row < num_rows"
  then show "unat (row_counts ?g0 ! row) = active_in_row cfg (asym.state ?g0) row"
    using i by (simp add: asym_inv_def)
next
  let ?g0 = "asym_debounce_init cfg num_rows t0"
  have "asym_ok cfg num_rows (cooked, ?g0)"
    using asym_init_ok [of cfg num_rows t0] assms(3) by (simp add: asym_ok_def)
  from asym_trace_ok [OF this assms(2,1), of calls]
  show "\<forall>(cooked', g')\<in>set (scan_trace (asym_scan cfg num_rows) calls (cooked, ?g0)).
            \<forall>row<num_rows. unat (row_counts g' ! row) = active_in_row cfg (asym.state g') row"
    by (auto simp add: asym_ok_def asym_inv_def)
next
  fix g row col
  assume inv: "asym_inv cfg num_rows g" and cell: "row < num_rows" "col < MATRIX_COLS cfg"
  then have ok: "asym_ok cfg num_rows (cooked, g)" using assms(3) by (simp add: asym_ok_def)
  from asym_scan_cell(3) [OF ok assms(2,1) cell, of now raw changed]
  show "asym_view cfg row col (asym_debounce cfg now raw cooked num_rows changed g) =
          asym_cell cfg changed (asym_elapsed now g) (bit (raw ! row) col)
            (asym_view cfg row col (cooked, g))"
    by (simp add: asym_scan_def)
qed

theorem asym_row_counts_exact_witness:
  "window_ok (asym_defaults 2) \<and> MATRIX_COLS (asym_defaults 2) < 256 \<and>
   (1::nat) \<le> length [0 :: 8 word] \<and>
   map (\<lambda>(cooked', g'). (cooked', map unat (row_counts g'),
          active_in_row (asym_defaults 2) (asym.state g') 0))
     (scan_trace (asym_scan (asym_defaults 2) 1)
        [(0, [3], True), (3, [3], False), (5, [3], False)]
        ([0 :: 8 word], asym_debounce_init (asym_defaults 2) 1 0))
   = [([0], [2], 2), ([0], [2], 2), ([3], [0], 0)]"
proof -
  have h: "window_ok (asym_defaults 2)" "MATRIX_COLS (asym_defaults 2) < 256"
    "(1::nat) \<le> length [0 :: 8 word]"
    by (simp_all add: window_ok_def asym_defaults_def DEBOUNCE_def)
  have e: "map (\<lambda>(cooked', g'). (cooked', map unat (row_counts g'),
          active_in_row (asym_defaults 2) (asym.state g') 0))
     (scan_trace (asym_scan (asym_defaults 2) 1)
        [(0, [3], True), (3, [3], False), (5, [3], False)]
        ([0 :: 8 word], asym_debounce_init (asym_defaults 2) 1 0))
   = [([0], [2], 2), ([0], [2], 2), ([3], [0], 0)]"
    by code_simp
  from asym_row_counts_exact [OF h, of 0 "[(0, [3], True), (3, [3], False), (5, [3], False)]"]
    h e show ?thesis by simp
qed

lemma reach_chain:
  assumes "sparse_chain cs p ps"
  shows "sparse_reach cs p i \<longleftrightarrow> i \<in> set ps"
proof
  assume "sparse_reach cs p i"
  then show "i \<in> set ps" using assms
  proof (induction arbitrary: ps rule: sparse_reach.induct)
    case (reach_here p i)
    then show ?case by (cases ps) auto
  next
    case (reach_next p i)
    then show ?case by (cases ps) auto
  qed
next
  assume "i \<in> set ps"
  then show "sparse_reach cs p i" using assms
  proof (induction ps arbitrary: p)
    case Nil
    then show ?case by simp
  next
    case (Cons q qs)
    show ?case
    proof (cases "i = q")
      case True
      then show ?thesis using Cons.prems by (auto intro: reach_here)
    next
      case False
      then have "sparse_reach cs (next (cs ! q)) i" using Cons by auto
      then show ?thesis using Cons.prems(2) by (auto intro: reach_next)
    qed
  qed
qed

lemma listed_reach:
  assumes "sparse_listed cs head" "i < length cs"
  shows "sparse_reach cs head i \<longleftrightarrow> debounce_counter_t.remaining (cs ! i) \<noteq> 0"
proof -
  from assms(1) obtain ps where ch: "sparse_chain cs head ps"
    and mem: "\<forall>i<length cs. i \<in> set ps \<longleftrightarrow> debounce_counter_t.remaining (cs ! i) \<noteq> 0"
    unfolding sparse_listed_def by blast
  have "sparse_reach cs head i \<longleftrightarrow> i \<in> set ps" using ch by (rule reach_chain)
  also have "\<dots> \<longleftrightarrow> debounce_counter_t.remaining (cs ! i) \<noteq> 0" using mem assms(2) by blast
  finally show ?thesis .
qed

lemma sparse_init_inv:
  assumes "num_rows * MATRIX_COLS cfg < 255"
  shows "sparse_inv cfg num_rows (sparse_debounce_init cfg num_rows g)"
proof -
  have "sparse_listed (replicate (num_rows * MATRIX_COLS cfg)
          \<lparr>debounce_counter_t.remaining = 0, next = DEBOUNCE_NULL\<rparr>) DEBOUNCE_NULL"
    unfolding sparse_listed_def by (intro exI [of _ "[]"]) simp
  then show ?thesis using assms by (simp add: sparse_inv_def sparse_debounce_init_def)
qed

lemma sparse_okE:
  assumes "sparse_ok cfg num_rows r"
  obtains cooked g where "r = Some (Inr (cooked, g))" "sparse_inv cfg num_rows g"
    "num_rows \<le> length cooked"
proof (cases r)
  case None
  with assms show ?thesis by (simp add: sparse_ok_def)
next
  case (Some x)
  show ?thesis
  proof (cases x)
    case (Inl a)
    with assms Some show ?thesis by (simp add: sparse_ok_def)
  next
    case (Inr s)
    obtain cooked g where "s = (cooked, g)" by (cases s)
    with assms Some Inr show ?thesis by (intro that [of cooked g]) (simp_all add: sparse_ok_def)
  qed
qed

text \<open>One call of the sparse-list engine, seen from one cell.\<close>

lemma sparse_scan_cell:
  fixes r :: "(abort + 'a::len word list \<times> 't::len word sparse) option"
  assumes ok: "sparse_ok cfg num_rows r" and n: "0 < MATRIX_COLS cfg" and w: "window_ok cfg"
    and cell: "row < num_rows" "col < MATRIX_COLS cfg"
  obtains cooked g cooked' g' where
    "r = Some (Inr (cooked, g))"
    "sparse_scan cfg num_rows (now, raw, changed) r = Some (Inr (cooked', g'))"
    "sparse_ok cfg num_rows (Some (Inr (cooked', g')))"
    "sparse.last_time_initialized g'" "sparse.last_time g' = now"
    "sparse_view cfg row col (Some (Inr (cooked', g'))) =
       Some (sparse_cell cfg changed (fst (sparse_get_elapsed now g)) (bit (raw ! row) col)
         (bit (cooked ! row) col,
          debounce_counter_t.remaining (debounce_counters g ! (row * MATRIX_COLS cfg + col))))"
proof -
  from ok obtain cooked g where r: "r = Some (Inr (cooked, g))"
    and inv: "sparse_inv cfg num_rows g" and len: "num_rows \<le> length cooked"
    by (rule sparse_okE)
  from sparse_debounce_cells [OF inv n w len, of now raw changed]
  obtain s' where res': "sparse_debounce cfg now raw cooked num_rows changed g = Some (Inr s')"
    and post': "sparse_call_post cfg num_rows now raw changed cooked g s'"
    by (elim exE conjE)
  obtain cooked' g' where s': "s' = (cooked', g')" by (cases s')
  note res = res' [unfolded s'] and post = post' [unfolded s' sparse_call_post_def prod.case]
  from post have inv': "sparse_inv cfg num_rows g'" and len': "length cooked' = length cooked"
    and clk: "sparse.last_time_initialized g'" "sparse.last_time g' = now"
    by simp_all
  from post cell have cells:
    "(bit (cooked' ! row) col,
      debounce_counter_t.remaining (debounce_counters g' ! (row * MATRIX_COLS cfg + col))) =
     sparse_cell cfg changed (fst (sparse_get_elapsed now g)) (bit (raw ! row) col)
       (bit (cooked ! row) col,
        debounce_counter_t.remaining (debounce_counters g ! (row * MATRIX_COLS cfg + col)))"
    by blast
  show ?thesis
  proof (rule that [OF r])
    show "sparse_scan cfg num_rows (now, raw, changed) r = Some (Inr (cooked', g'))"
      using res by (simp add: sparse_scan_def r)
    show "sparse_ok cfg num_rows (Some (Inr (cooked', g')))"
      using inv' len len' by (simp add: sparse_ok_def)
    show "sparse_view cfg row col (Some (Inr (cooked', g'))) =
       Some (sparse_cell cfg changed (fst (sparse_get_elapsed now g)) (bit (raw ! row) col)
         (bit (cooked ! row) col,
          debounce_counter_t.remaining (debounce_counters g ! (row * MATRIX_COLS cfg + col))))"
      using cells by (simp add: sparse_view_def)
  qed (fact clk)+
qed

lemma sparse_trace_ok:
  fixes r :: "(abort + 'a::len word list \<times> 't::len word sparse) option"
  assumes ok: "sparse_ok cfg num_rows r" and n: "0 < MATRIX_COLS cfg" and w: "window_ok cfg"
  shows "(\<forall>r'\<in>set (scan_trace (sparse_scan cfg num_rows) calls r). sparse_ok cfg num_rows r') \<and>
         sparse_ok cfg num_rows (fold (sparse_scan cfg num_rows) calls r)"
proof (rule scan_invariant [where P = "sparse_ok cfg num_rows"])
  show "sparse_ok cfg num_rows r" by (fact ok)
next
  fix c :: "'t word \<times> 'a word list \<times> bool"
    and r :: "(abort + 'a word list \<times> 't word sparse) option"
  assume a: "sparse_ok cfg num_rows r"
  obtain now raw changed where c: "c = (now, raw, changed)" by (cases c)
  from a obtain cooked g where r: "r = Some (Inr (cooked, g))"
    and inv: "sparse_inv cfg num_rows g" and len: "num_rows \<le> length cooked"
    by (rule sparse_okE)
  from sparse_debounce_cells [OF inv n w len, of now raw changed]
  obtain s' where res': "sparse_debounce cfg now raw cooked num_rows changed g = Some (Inr s')"
    and post': "sparse_call_post cfg num_rows now raw changed cooked g s'"
    by (elim exE conjE)
  obtain cooked' g' where s': "s' = (cooked', g')" by (cases s')
  from post' have "sparse_inv cfg num_rows g'" "length cooked' = length cooked"
    by (simp_all add: s' sparse_call_post_def)
  with res' have "sparse_debounce cfg now raw cooked num_rows changed g = Some (Inr (cooked', g'))"
    "sparse_inv cfg num_rows g'" "length cooked' = length cooked"
    by (simp_all add: s')
  then show "sparse_ok cfg num_rows (sparse_scan cfg num_rows c r)"
    using len by (simp add: sparse_scan_def sparse_ok_def r c)
qed

text \<open>One call of the quiescing engine, seen from one cell.\<close>

lemma fancy_scan_cell:
  fixes s :: "'a::len word list \<times> 't::len word fancy"
  assumes ok: "fancy_ok cfg num_rows s"
    and cell: "row < num_rows" "col < MATRIX_COLS cfg"
  shows "fancy_ok cfg num_rows (fancy_scan cfg num_rows (now, raw_addr, raw, changed) s)"
    and "fancy.last_time_initialized (snd (fancy_scan cfg num_rows (now, raw_addr, raw, changed) s))"
    and "fancy.last_time (snd (fancy_scan cfg num_rows (now, raw_addr, raw, changed) s)) = now"
    and "fancy_view cfg row col (fancy_scan cfg num_rows (now, raw_addr, raw, changed) s) =
           fancy_cell cfg (fst (fancy_get_elapsed now (snd s))) (bit raw_addr col)
             (bit (raw ! row) col) (fancy_view cfg row col s)"
proof -
  obtain cooked g where s: "s = (cooked, g)" by (cases s)
  obtain cooked' g' where
    r: "fancy_debounce cfg now raw_addr raw cooked num_rows changed g = (cooked', g')"
    by (cases "fancy_debounce cfg now raw_addr raw cooked num_rows changed g")
  from ok have lks: "length (key_states g) = num_rows * MATRIX_COLS cfg"
    and len: "num_rows \<le> length cooked"
    by (simp_all add: fancy_ok_def s)
  note f = fancy_debounce_cells [OF lks len r]
  show "fancy_ok cfg num_rows (fancy_scan cfg num_rows (now, raw_addr, raw, changed) s)"
    using f(1,2) len by (simp add: fancy_ok_def fancy_scan_def s r)
  show "fancy.last_time_initialized (snd (fancy_scan cfg num_rows (now, raw_addr, raw, changed) s))"
    using f(3) by (simp add: fancy_scan_def s r)
  show "fancy.last_time (snd (fancy_scan cfg num_rows (now, raw_addr, raw, changed) s)) = now"
    using f(4) by (simp add: fancy_scan_def s r)
  show "fancy_view cfg row col (fancy_scan cfg num_rows (now, raw_addr, raw, changed) s) =
           fancy_cell cfg (fst (fancy_get_elapsed now (snd s))) (bit raw_addr col)
             (bit (raw ! row) col) (fancy_view cfg row col s)"
    using f(5) [OF cell] by (simp add: fancy_scan_def fancy_view_def s r)
qed





text \<open>
  C9. In the quiescing engine a cell in \<open>QUIESCING\<close> ignores the raw matrix: whatever
  \<open>raw\<close> holds, the call leaves its cooked bit alone and never moves it to
  \<open>DEBOUNCING\<close>; it counts \<open>remaining\<close> down while \<open>remaining\<close> exceeds the
  elapsed delta and moves to \<open>WAITING\<close> exactly in the call that finds
  \<open>remaining\<close> at most the elapsed delta.
\<close>

theorem quiescing_ignores_raw:
  fixes cooked :: "'a::len word list" and g :: "'t::len word fancy"
  assumes "length (key_states g) = num_rows * MATRIX_COLS cfg" and "num_rows \<le> length cooked"
    and "row < num_rows" and "col < MATRIX_COLS cfg"
    and "state (key_states g ! (row * MATRIX_COLS cfg + col)) = QUIESCING"
  shows "fancy_view cfg row col (fancy_debounce cfg now raw_addr raw cooked num_rows changed g) =
           (bit (cooked ! row) col,
            if key_state_t.remaining (key_states g ! (row * MATRIX_COLS cfg + col))
                 > fst (fancy_get_elapsed now g)
            then (key_states g ! (row * MATRIX_COLS cfg + col))
                   \<lparr>remaining := key_state_t.remaining (key_states g ! (row * MATRIX_COLS cfg + col))
                                  - fst (fancy_get_elapsed now g)\<rparr>
            else (key_states g ! (row * MATRIX_COLS cfg + col))\<lparr>state := WAITING\<rparr>) \<and>
         state (snd (fancy_view cfg row col
                  (fancy_debounce cfg now raw_addr raw cooked num_rows changed g))) \<noteq> DEBOUNCING \<and>
         (state (snd (fancy_view cfg row col
                  (fancy_debounce cfg now raw_addr raw cooked num_rows changed g))) = WAITING
            \<longleftrightarrow> key_state_t.remaining (key_states g ! (row * MATRIX_COLS cfg + col))
                  \<le> fst (fancy_get_elapsed now g)) \<and>
         fancy_view cfg row col (fancy_debounce cfg now raw_addr raw cooked num_rows changed g) =
         fancy_view cfg row col (fancy_debounce cfg now raw_addr' raw' cooked num_rows changed' g)"
proof -
  let ?i = "row * MATRIX_COLS cfg + col"
  let ?e = "fst (fancy_get_elapsed now g)"
  have ok: "fancy_ok cfg num_rows (cooked, g)" using assms(1,2) by (simp add: fancy_ok_def)
  have v: "fancy_view cfg row col (cooked, g) = (bit (cooked ! row) col, key_states g ! ?i)"
    by (simp add: fancy_view_def)
  have step: "fancy_view cfg row col (fancy_debounce cfg now a r cooked num_rows ch g) =
      (bit (cooked ! row) col,
       if key_state_t.remaining (key_states g ! ?i) > ?e
       then (key_states g ! ?i)\<lparr>remaining := key_state_t.remaining (key_states g ! ?i) - ?e\<rparr>
       else (key_states g ! ?i)\<lparr>state := WAITING\<rparr>)" for a r ch
    using fancy_scan_cell(4) [OF ok assms(3,4), of now a r ch] assms(5)
    by (simp add: fancy_scan_def v fancy_cell_def)
  show ?thesis
    unfolding step [of raw_addr raw changed] step [of raw_addr' raw' changed']
    using assms(5) by (auto simp add: not_less)
qed

theorem quiescing_ignores_raw_witness:
  "length (key_states \<lparr>key_states = [\<lparr>state = QUIESCING, remaining = 30\<rparr>],
      last_time_initialized = True, last_time = 5 :: 16 word, first_time = 0\<rparr>)
     = 1 * MATRIX_COLS (fancy_defaults 1) \<and>
   (1::nat) \<le> length [1 :: 8 word] \<and> (0::nat) < 1 \<and> 0 < MATRIX_COLS (fancy_defaults 1) \<and>
   fancy_debounce (fancy_defaults 1) 20 0 [0] [1 :: 8 word] 1 True
     \<lparr>key_states = [\<lparr>state = QUIESCING, remaining = 30\<rparr>],
      last_time_initialized = True, last_time = 5 :: 16 word, first_time = 0\<rparr>
     = ([1], \<lparr>key_states = [\<lparr>state = QUIESCING, remaining = 15\<rparr>],
             last_time_initialized = True, last_time = 20, first_time = 0\<rparr>) \<and>
   fancy_debounce (fancy_defaults 1) 35 0 [0] [1 :: 8 word] 1 True
     \<lparr>key_states = [\<lparr>state = QUIESCING, remaining = 30\<rparr>],
      last_time_initialized = True, last_time = 5 :: 16 word, first_time = 0\<rparr>
     = ([1], \<lparr>key_states = [\<lparr>state = WAITING, remaining = 30\<rparr>],
             last_time_initialized = True, last_time = 35, first_time = 0\<rparr>)"
proof -
  let ?g = "\<lparr>key_states = [\<lparr>state = QUIESCING, remaining = 30\<rparr>],
      last_time_initialized = True, last_time = 5 :: 16 word, first_time = 0\<rparr>"
  have h: "length (key_states ?g) = 1 * MATRIX_COLS (fancy_defaults 1)"
    "(1::nat) \<le> length [1 :: 8 word]" "(0::nat) < 1" "0 < MATRIX_COLS (fancy_defaults 1)"
    "state (key_states ?g ! (0 * MATRIX_COLS (fancy_defaults 1) + 0)) = QUIESCING"
    by (simp_all add: fancy_defaults_def)
  have a: "fancy_debounce (fancy_defaults 1) 20 0 [0] [1 :: 8 word] 1 True ?g
     = ([1], \<lparr>key_states = [\<lparr>state = QUIESCING, remaining = 15\<rparr>],
             last_time_initialized = True, last_time = 20, first_time = 0\<rparr>)"
    by code_simp
  have b: "fancy_debounce (fancy_defaults 1) 35 0 [0] [1 :: 8 word] 1 True ?g
     = ([1], \<lparr>key_states = [\<lparr>state = WAITING, remaining = 30\<rparr>],
             last_time_initialized = True, last_time = 35, first_time = 0\<rparr>)"
    by code_simp
  from quiescing_ignores_raw [OF h, where now = 20 and raw_addr = 0 and raw = "[0]"
      and changed = True] h(1-4) a b
  show ?thesis by simp
qed

text \<open>
  C3. A \<open>WAITING\<close> cell whose raw bit differs from its cooked bit does move to
  \<open>DEBOUNCING\<close>, but the window it is armed with is chosen by \<open>raw & col_mask\<close>,
  where \<open>raw\<close> is the array parameter, not by the raw bit of the cell. With
  \<open>DEBOUNCE_DOWN = 5\<close>, \<open>DEBOUNCE_UP = 10\<close> and the array at address \<open>0x1000\<close>,
  a press of cell (0, 0) is armed with 10 and, at address \<open>0x1001\<close>, a release with 5.
\<close>

theorem fancy_waiting_arms_by_address:
  "fancy_debounce \<lparr>MATRIX_COLS = 1, DEBOUNCE_DOWN = 5, DEBOUNCE_UP = 10, DEBOUNCE_QUIESCE = 30\<rparr>
     0 4096 [1] [0 :: 16 word] 1 True
     \<lparr>key_states = [\<lparr>state = WAITING, remaining = 0\<rparr>],
      last_time_initialized = False, last_time = 0 :: 16 word, first_time = 0\<rparr>
   = ([0], \<lparr>key_states = [\<lparr>state = DEBOUNCING, remaining = 10\<rparr>],
           last_time_initialized = True, last_time = 0, first_time = 0\<rparr>) \<and>
   fancy_debounce \<lparr>MATRIX_COLS = 1, DEBOUNCE_DOWN = 5, DEBOUNCE_UP = 10, DEBOUNCE_QUIESCE = 30\<rparr>
     0 4097 [0] [1 :: 16 word] 1 True
     \<lparr>key_states = [\<lparr>state = WAITING, remaining = 0\<rparr>],
      last_time_initialized = False, last_time = 0 :: 16 word, first_time = 0\<rparr>
   = ([1], \<lparr>key_states = [\<lparr>state = DEBOUNCING, remaining = 5\<rparr>],
           last_time_initialized = True, last_time = 0, first_time = 0\<rparr>)"
  by code_simp

lemma u8_sub_exact: "e < c \<Longrightarrow> unat (c - e) = unat c - unat e \<and> 0 < unat (c - e)"
  for c e :: "8 word"
  using u8_sub [of e c] by (simp add: word_less_nat_alt)

text \<open>
  C7, as stated, fails in the quiescing engine. From \<open>debounce_init\<close> with the
  default windows, a key pressed at tick 0 is armed with 5; the call at tick 5 finds
  the counter (5) not above the elapsed delta (5) and sets it to 30, not to zero; the
  call at tick 40 finds the counter (30) below the elapsed delta (35) and leaves it
  at 30 while the cell returns to \<open>WAITING\<close>.
\<close>

theorem quiescing_counter_not_zeroed:
  "map (\<lambda>(cooked, g). (cooked, key_states g))
     (scan_trace (fancy_scan (fancy_defaults 1) 1)
        [(0, 0, [1], True), (5, 0, [1], False), (40, 0, [1], False)]
        ([0 :: 8 word],
         fancy_debounce_init (fancy_defaults 1) 1 (\<lambda>i. 0)
           \<lparr>key_states = [], last_time_initialized = False, last_time = 0 :: 16 word,
            first_time = 0\<rparr>))
   = [([0], [\<lparr>state = DEBOUNCING, remaining = 5\<rparr>]),
      ([1], [\<lparr>state = QUIESCING, remaining = 30\<rparr>]),
      ([1], [\<lparr>state = WAITING, remaining = 30\<rparr>])] \<and>
   fst (fancy_get_elapsed (40 :: 16 word)
     \<lparr>key_states = [\<lparr>state = QUIESCING, remaining = 30\<rparr>], last_time_initialized = True,
      last_time = 5, first_time = 0\<rparr>) = 35"
  by code_simp

text \<open>
  C7, amended. No per-cell counter wraps in any engine: the elapsed delta is only
  subtracted from a counter that exceeds it. In the asymmetric and sparse-list
  engines a counter that is not zero and at most the elapsed delta is set to zero
  (the cell is committed), and a sparse counter that a call with \<open>changed\<close> finds
  still mismatched gets back what the same call subtracted. In the quiescing engine
  a counter at most the elapsed delta is not set to zero: the state of the cell
  advances, and the counter is re-armed with \<open>DEBOUNCE_QUIESCE\<close> (\<open>DEBOUNCING\<close> to
  \<open>QUIESCING\<close>) or left as it is (\<open>QUIESCING\<close> to \<open>WAITING\<close>).
\<close>

theorem counters_never_wrap:
  fixes cooked :: "'a::len word list" and ga :: asym and gs :: "'t::len word sparse"
    and gf :: "'u::len word fancy"
  assumes "window_ok cfg" and "0 < MATRIX_COLS cfg" and "MATRIX_COLS cfg < 256"
    and "row < num_rows" and "col < MATRIX_COLS cfg" and "num_rows \<le> length cooked"
  shows
    "(asym_inv cfg num_rows ga \<longrightarrow>
        (\<exists>b' c'. asym_view cfg row col (asym_debounce cfg now raw cooked num_rows changed ga) = (b', c') \<and>
           (let c = count (asym.state ga ! (row * MATRIX_COLS cfg + col));
                e = asym_elapsed now ga;
                arm = (changed \<and> bit (raw ! row) col \<noteq> bit (cooked ! row) col)
            in (arm \<longrightarrow> c' = (if bit (raw ! row) col then of_nat (DEBOUNCE_DOWN cfg)
                                else of_nat (DEBOUNCE_UP cfg))) \<and>
               (\<not> arm \<and> e < c \<longrightarrow> unat c' = unat c - unat e \<and> 0 < unat c') \<and>
               (\<not> arm \<and> c \<le> e \<longrightarrow> c' = 0)))) \<and>
     (sparse_inv cfg num_rows gs \<longrightarrow>
        (\<exists>cooked' g'.
           sparse_debounce cfg nows raw cooked num_rows changed gs = Some (Inr (cooked', g')) \<and>
           (let c = debounce_counter_t.remaining (debounce_counters gs ! (row * MATRIX_COLS cfg + col));
                c' = debounce_counter_t.remaining (debounce_counters g' ! (row * MATRIX_COLS cfg + col));
                e = fst (sparse_get_elapsed nows gs);
                arm = (changed \<and> bit (raw ! row) col \<noteq> bit (cooked ! row) col)
            in (c = 0 \<longrightarrow> c' = (if arm then (if bit (raw ! row) col then of_nat (DEBOUNCE_DOWN cfg)
                                              else of_nat (DEBOUNCE_UP cfg)) else 0)) \<and>
               (e < c \<and> arm \<longrightarrow> c' = c) \<and>
               (e < c \<and> \<not> arm \<longrightarrow> unat c' = unat c - unat e \<and> 0 < unat c') \<and>
               (c \<noteq> 0 \<and> c \<le> e \<longrightarrow> c' = 0)))) \<and>
     (length (key_states gf) = num_rows * MATRIX_COLS cfg \<longrightarrow>
        (let k = key_states gf ! (row * MATRIX_COLS cfg + col);
             k' = snd (fancy_view cfg row col
                    (fancy_debounce cfg nowf raw_addr raw cooked num_rows changed gf));
             e = fst (fancy_get_elapsed nowf gf);
             mismatch = (bit (raw ! row) col \<noteq> bit (cooked ! row) col)
         in (state k = WAITING \<longrightarrow>
               key_state_t.remaining k' =
                 (if mismatch then (if bit raw_addr col then of_nat (DEBOUNCE_DOWN cfg)
                                    else of_nat (DEBOUNCE_UP cfg))
                  else key_state_t.remaining k)) \<and>
            (state k = DEBOUNCING \<longrightarrow>
               key_state_t.remaining k' =
                 (if \<not> mismatch then key_state_t.remaining k
                  else if e < key_state_t.remaining k then key_state_t.remaining k - e
                  else of_nat (DEBOUNCE_QUIESCE cfg))) \<and>
            (state k = QUIESCING \<longrightarrow>
               key_state_t.remaining k' =
                 (if e < key_state_t.remaining k then key_state_t.remaining k - e
                  else key_state_t.remaining k)) \<and>
            (e < key_state_t.remaining k \<longrightarrow>
               unat (key_state_t.remaining k - e) = unat (key_state_t.remaining k) - unat e \<and>
               0 < unat (key_state_t.remaining k - e))))"
proof (intro conjI impI)
  let ?i = "row * MATRIX_COLS cfg + col"
  assume inv: "asym_inv cfg num_rows ga"
  then have ok: "asym_ok cfg num_rows (cooked, ga)" using assms(6) by (simp add: asym_ok_def)
  from asym_scan_cell(3) [OF ok assms(3,1,4,5), of now raw changed]
  have v: "asym_view cfg row col (asym_debounce cfg now raw cooked num_rows changed ga) =
          asym_cell cfg changed (asym_elapsed now ga) (bit (raw ! row) col)
            (bit (cooked ! row) col, count (asym.state ga ! ?i))"
    by (simp add: asym_scan_def asym_view_def)
  show "\<exists>b' c'. asym_view cfg row col (asym_debounce cfg now raw cooked num_rows changed ga) = (b', c') \<and>
           (let c = count (asym.state ga ! ?i);
                e = asym_elapsed now ga;
                arm = (changed \<and> bit (raw ! row) col \<noteq> bit (cooked ! row) col)
            in (arm \<longrightarrow> c' = (if bit (raw ! row) col then of_nat (DEBOUNCE_DOWN cfg)
                                else of_nat (DEBOUNCE_UP cfg))) \<and>
               (\<not> arm \<and> e < c \<longrightarrow> unat c' = unat c - unat e \<and> 0 < unat c') \<and>
               (\<not> arm \<and> c \<le> e \<longrightarrow> c' = 0))"
    unfolding v
    using u8_sub_exact [of "asym_elapsed now ga" "count (asym.state ga ! ?i)"]
    by (auto simp add: asym_cell_def Let_def)
next
  let ?i = "row * MATRIX_COLS cfg + col"
  let ?rem = "debounce_counter_t.remaining"
  assume inv: "sparse_inv cfg num_rows gs"
  from sparse_debounce_cells [OF inv assms(2,1,6), of nows raw changed]
  obtain s' where res': "sparse_debounce cfg nows raw cooked num_rows changed gs = Some (Inr s')"
    and post': "sparse_call_post cfg num_rows nows raw changed cooked gs s'"
    by (elim exE conjE)
  obtain cooked' g' where s': "s' = (cooked', g')" by (cases s')
  note post = post' [unfolded s' sparse_call_post_def prod.case]
  from post assms(4,5) have v:
    "(bit (cooked' ! row) col, ?rem (debounce_counters g' ! ?i)) =
     sparse_cell cfg changed (fst (sparse_get_elapsed nows gs)) (bit (raw ! row) col)
       (bit (cooked ! row) col, ?rem (debounce_counters gs ! ?i))"
    by blast
  have "let c = ?rem (debounce_counters gs ! ?i);
            c' = ?rem (debounce_counters g' ! ?i);
            e = fst (sparse_get_elapsed nows gs);
            arm = (changed \<and> bit (raw ! row) col \<noteq> bit (cooked ! row) col)
        in (c = 0 \<longrightarrow> c' = (if arm then (if bit (raw ! row) col then of_nat (DEBOUNCE_DOWN cfg)
                                          else of_nat (DEBOUNCE_UP cfg)) else 0)) \<and>
           (e < c \<and> arm \<longrightarrow> c' = c) \<and>
           (e < c \<and> \<not> arm \<longrightarrow> unat c' = unat c - unat e \<and> 0 < unat c') \<and>
           (c \<noteq> 0 \<and> c \<le> e \<longrightarrow> c' = 0)"
    using v u8_sub_exact [of "fst (sparse_get_elapsed nows gs)" "?rem (debounce_counters gs ! ?i)"]
    by (auto simp add: sparse_cell_def sparse_arm_cell_def Let_def split: if_splits)
  with res' show "\<exists>cooked' g'.
           sparse_debounce cfg nows raw cooked num_rows changed gs = Some (Inr (cooked', g')) \<and>
           (let c = ?rem (debounce_counters gs ! ?i);
                c' = ?rem (debounce_counters g' ! ?i);
                e = fst (sparse_get_elapsed nows gs);
                arm = (changed \<and> bit (raw ! row) col \<noteq> bit (cooked ! row) col)
            in (c = 0 \<longrightarrow> c' = (if arm then (if bit (raw ! row) col then of_nat (DEBOUNCE_DOWN cfg)
                                              else of_nat (DEBOUNCE_UP cfg)) else 0)) \<and>
               (e < c \<and> arm \<longrightarrow> c' = c) \<and>
               (e < c \<and> \<not> arm \<longrightarrow> unat c' = unat c - unat e \<and> 0 < unat c') \<and>
               (c \<noteq> 0 \<and> c \<le> e \<longrightarrow> c' = 0))"
    unfolding s' by blast
next
  let ?i = "row * MATRIX_COLS cfg + col"
  assume l: "length (key_states gf) = num_rows * MATRIX_COLS cfg"
  then have ok: "fancy_ok cfg num_rows (cooked, gf)" using assms(6) by (simp add: fancy_ok_def)
  from fancy_scan_cell(4) [OF ok assms(4,5), of nowf raw_addr raw changed]
  have v: "fancy_view cfg row col (fancy_debounce cfg nowf raw_addr raw cooked num_rows changed gf) =
      fancy_cell cfg (fst (fancy_get_elapsed nowf gf)) (bit raw_addr col) (bit (raw ! row) col)
        (bit (cooked ! row) col, key_states gf ! ?i)"
    by (simp add: fancy_scan_def fancy_view_def)
  show "let k = key_states gf ! ?i;
             k' = snd (fancy_view cfg row col
                    (fancy_debounce cfg nowf raw_addr raw cooked num_rows changed gf));
             e = fst (fancy_get_elapsed nowf gf);
             mismatch = (bit (raw ! row) col \<noteq> bit (cooked ! row) col)
         in (state k = WAITING \<longrightarrow>
               key_state_t.remaining k' =
                 (if mismatch then (if bit raw_addr col then of_nat (DEBOUNCE_DOWN cfg)
                                    else of_nat (DEBOUNCE_UP cfg))
                  else key_state_t.remaining k)) \<and>
            (state k = DEBOUNCING \<longrightarrow>
               key_state_t.remaining k' =
                 (if \<not> mismatch then key_state_t.remaining k
                  else if e < key_state_t.remaining k then key_state_t.remaining k - e
                  else of_nat (DEBOUNCE_QUIESCE cfg))) \<and>
            (state k = QUIESCING \<longrightarrow>
               key_state_t.remaining k' =
                 (if e < key_state_t.remaining k then key_state_t.remaining k - e
                  else key_state_t.remaining k)) \<and>
            (e < key_state_t.remaining k \<longrightarrow>
               unat (key_state_t.remaining k - e) = unat (key_state_t.remaining k) - unat e \<and>
               0 < unat (key_state_t.remaining k - e))"
    unfolding v
    using u8_sub_exact [of "fst (fancy_get_elapsed nowf gf)" "key_state_t.remaining (key_states gf ! ?i)"]
    by (cases "state (key_states gf ! ?i)") (auto simp add: fancy_cell_def Let_def)
qed

text \<open>
  Cell (0, 1) of one row of two columns, armed with 5 in the asymmetric and the
  sparse-list engine and settling with 30 in the quiescing engine, three ticks after
  the previous call: the counters become 2, 2 and 27.
\<close>

theorem counters_never_wrap_witness:
  "window_ok (sparse_defaults 2) \<and> 0 < MATRIX_COLS (sparse_defaults 2) \<and>
   MATRIX_COLS (sparse_defaults 2) < 256 \<and> (0::nat) < 1 \<and> 1 < MATRIX_COLS (sparse_defaults 2) \<and>
   (1::nat) \<le> length [2 :: 8 word] \<and>
   asym_inv (sparse_defaults 2) 1
     \<lparr>asym.last_time = 0, asym.state = [\<lparr>count = 0\<rparr>, \<lparr>count = 5\<rparr>], row_counts = [1]\<rparr> \<and>
   asym_view (sparse_defaults 2) 0 1
     (asym_debounce (sparse_defaults 2) 3 [2] [2 :: 8 word] 1 False
        \<lparr>asym.last_time = 0, asym.state = [\<lparr>count = 0\<rparr>, \<lparr>count = 5\<rparr>], row_counts = [1]\<rparr>)
     = (True, 2) \<and>
   sparse_inv (sparse_defaults 2) 1
     \<lparr>debounce_counters = [\<lparr>debounce_counter_t.remaining = 0, next = 255\<rparr>,
                           \<lparr>debounce_counter_t.remaining = 5, next = 255\<rparr>],
      debounce_list_head = 1, last_time_initialized = True, last_time = 0 :: 16 word\<rparr> \<and>
   sparse_debounce (sparse_defaults 2) 3 [2] [2 :: 8 word] 1 False
     \<lparr>debounce_counters = [\<lparr>debounce_counter_t.remaining = 0, next = 255\<rparr>,
                           \<lparr>debounce_counter_t.remaining = 5, next = 255\<rparr>],
      debounce_list_head = 1, last_time_initialized = True, last_time = 0 :: 16 word\<rparr>
     = Some (Inr ([2],
         \<lparr>debounce_counters = [\<lparr>debounce_counter_t.remaining = 0, next = 255\<rparr>,
                               \<lparr>debounce_counter_t.remaining = 2, next = 255\<rparr>],
          debounce_list_head = 1, last_time_initialized = True, last_time = 3\<rparr>)) \<and>
   fancy_view (sparse_defaults 2) 0 1
     (fancy_debounce (sparse_defaults 2) 3 0 [2] [2 :: 8 word] 1 False
        \<lparr>key_states = [\<lparr>state = WAITING, remaining = 0\<rparr>, \<lparr>state = QUIESCING, remaining = 30\<rparr>],
         last_time_initialized = True, last_time = 0 :: 16 word, first_time = 0\<rparr>)
     = (True, \<lparr>state = QUIESCING, remaining = 27\<rparr>)"
proof -
  let ?cfg = "sparse_defaults 2"
  let ?ga = "\<lparr>asym.last_time = 0, asym.state = [\<lparr>count = 0\<rparr>, \<lparr>count = 5\<rparr>], row_counts = [1]\<rparr>"
  let ?gs = "\<lparr>debounce_counters = [\<lparr>debounce_counter_t.remaining = 0, next = 255\<rparr>,
                           \<lparr>debounce_counter_t.remaining = 5, next = 255\<rparr>],
      debounce_list_head = 1, last_time_initialized = True, last_time = 0 :: 16 word\<rparr>"
  let ?gf = "\<lparr>key_states = [\<lparr>state = WAITING, remaining = 0\<rparr>, \<lparr>state = QUIESCING, remaining = 30\<rparr>],
         last_time_initialized = True, last_time = 0 :: 16 word, first_time = 0\<rparr>"
  have h: "window_ok ?cfg" "0 < MATRIX_COLS ?cfg" "MATRIX_COLS ?cfg < 256" "(0::nat) < 1"
    "1 < MATRIX_COLS ?cfg" "(1::nat) \<le> length [2 :: 8 word]"
    by (simp_all add: window_ok_def sparse_defaults_def DEBOUNCE_def)
  have ia: "asym_inv ?cfg 1 ?ga"
    by (simp add: asym_inv_def active_in_row_def sparse_defaults_def)
  have "sparse_chain (debounce_counters ?gs) (debounce_list_head ?gs) [1]"
    by (simp add: DEBOUNCE_NULL_def)
  then have "sparse_listed (debounce_counters ?gs) (debounce_list_head ?gs)"
    unfolding sparse_listed_def by (intro exI [of _ "[1]"]) (simp add: less_Suc_eq)
  then have isp: "sparse_inv ?cfg 1 ?gs" by (simp add: sparse_inv_def sparse_defaults_def)
  have a: "asym_view ?cfg 0 1 (asym_debounce ?cfg 3 [2] [2 :: 8 word] 1 False ?ga) = (True, 2)"
    by code_simp
  have b: "sparse_debounce ?cfg 3 [2] [2 :: 8 word] 1 False ?gs
     = Some (Inr ([2],
         \<lparr>debounce_counters = [\<lparr>debounce_counter_t.remaining = 0, next = 255\<rparr>,
                               \<lparr>debounce_counter_t.remaining = 2, next = 255\<rparr>],
          debounce_list_head = 1, last_time_initialized = True, last_time = 3\<rparr>))"
    by code_simp
  have c: "fancy_view ?cfg 0 1 (fancy_debounce ?cfg 3 0 [2] [2 :: 8 word] 1 False ?gf)
     = (True, \<lparr>state = QUIESCING, remaining = 27\<rparr>)"
    by code_simp
  note t = counters_never_wrap [OF h, where ga = ?ga and gs = ?gs and gf = ?gf and now = 3
      and nows = 3 and nowf = 3 and raw = "[2]" and raw_addr = 0 and changed = False]
  from t h ia isp a b c show ?thesis by simp
qed

text \<open>
  C5. In the sparse-list engine, after \<open>debounce_init\<close> and after every call of
  \<open>debounce\<close> (each of which returns, the \<open>assert\<close> of the settle pass holding),
  a cell is reachable from \<open>debounce_list_head\<close> through the \<open>next\<close> fields if
  and only if its \<open>remaining\<close> is not zero (for windows between 1 and 255 and fewer
  than 255 cells).
\<close>

theorem sparse_list_lockstep:
  fixes cooked :: "'a::len word list" and g :: "'t::len word sparse"
  assumes "window_ok cfg" and "0 < MATRIX_COLS cfg" and "num_rows * MATRIX_COLS cfg < 255"
    and "num_rows \<le> length cooked"
  shows "\<forall>r\<in>set (Some (Inr (cooked, sparse_debounce_init cfg num_rows g)) #
                 scan_trace (sparse_scan cfg num_rows) calls
                   (Some (Inr (cooked, sparse_debounce_init cfg num_rows g)))).
           \<exists>cooked' g'. r = Some (Inr (cooked', g')) \<and>
             (\<forall>i<num_rows * MATRIX_COLS cfg.
                sparse_reach (debounce_counters g') (debounce_list_head g') i \<longleftrightarrow>
                debounce_counter_t.remaining (debounce_counters g' ! i) \<noteq> 0)"
proof -
  let ?r0 = "Some (Inr (cooked, sparse_debounce_init cfg num_rows g))
               :: (abort + 'a word list \<times> 't word sparse) option"
  have ok0: "sparse_ok cfg num_rows ?r0"
    using sparse_init_inv [OF assms(3), of g] assms(4) by (simp add: sparse_ok_def)
  have all: "\<forall>r\<in>set (?r0 # scan_trace (sparse_scan cfg num_rows) calls ?r0). sparse_ok cfg num_rows r"
    using ok0 sparse_trace_ok [OF ok0 assms(2,1), of calls] by simp
  show ?thesis
  proof
    fix r assume "r \<in> set (?r0 # scan_trace (sparse_scan cfg num_rows) calls ?r0)"
    with all have "sparse_ok cfg num_rows r" by blast
    then obtain cooked' g' where r: "r = Some (Inr (cooked', g'))"
      and inv: "sparse_inv cfg num_rows g'" by (rule sparse_okE)
    from inv have l: "length (debounce_counters g') = num_rows * MATRIX_COLS cfg"
      and listed: "sparse_listed (debounce_counters g') (debounce_list_head g')"
      by (simp_all add: sparse_inv_def)
    have "\<forall>i<num_rows * MATRIX_COLS cfg.
            sparse_reach (debounce_counters g') (debounce_list_head g') i \<longleftrightarrow>
            debounce_counter_t.remaining (debounce_counters g' ! i) \<noteq> 0"
      using listed_reach [OF listed] l by simp
    with r show "\<exists>cooked' g'. r = Some (Inr (cooked', g')) \<and>
             (\<forall>i<num_rows * MATRIX_COLS cfg.
                sparse_reach (debounce_counters g') (debounce_list_head g') i \<longleftrightarrow>
                debounce_counter_t.remaining (debounce_counters g' ! i) \<noteq> 0)"
      by blast
  qed
qed

text \<open>
  A press of cell (0, 1), held: linked with 5 by the first call, counted down to 2,
  committed and unlinked by the call at tick 6.
\<close>

theorem sparse_list_lockstep_witness:
  "window_ok (sparse_defaults 2) \<and> 0 < MATRIX_COLS (sparse_defaults 2) \<and>
   1 * MATRIX_COLS (sparse_defaults 2) < 255 \<and> (1::nat) \<le> length [0 :: 8 word] \<and>
   scan_trace (sparse_scan (sparse_defaults 2) 1)
     [(1, [2], True), (4, [2], False), (6, [2], False)]
     (Some (Inr ([0 :: 8 word], sparse_debounce_init (sparse_defaults 2) 1
        \<lparr>debounce_counters = [], debounce_list_head = 0, last_time_initialized = False,
         last_time = 0 :: 16 word\<rparr>)))
   = [Some (Inr ([0],
        \<lparr>debounce_counters = [\<lparr>debounce_counter_t.remaining = 0, next = 255\<rparr>,
                              \<lparr>debounce_counter_t.remaining = 5, next = 255\<rparr>],
         debounce_list_head = 1, last_time_initialized = True, last_time = 1\<rparr>)),
      Some (Inr ([0],
        \<lparr>debounce_counters = [\<lparr>debounce_counter_t.remaining = 0, next = 255\<rparr>,
                              \<lparr>debounce_counter_t.remaining = 2, next = 255\<rparr>],
         debounce_list_head = 1, last_time_initialized = True, last_time = 4\<rparr>)),
      Some (Inr ([2],
        \<lparr>debounce_counters = [\<lparr>debounce_counter_t.remaining = 0, next = 255\<rparr>,
                              \<lparr>debounce_counter_t.remaining = 0, next = 255\<rparr>],
         debounce_list_head = 255, last_time_initialized = True, last_time = 6\<rparr>))] \<and>
   sparse_reach [\<lparr>debounce_counter_t.remaining = 0, next = 255\<rparr>,
                 \<lparr>debounce_counter_t.remaining = 2, next = 255\<rparr>] 1 1 \<and>
   \<not> sparse_reach [\<lparr>debounce_counter_t.remaining = 0, next = 255\<rparr>,
                   \<lparr>debounce_counter_t.remaining = 2, next = 255\<rparr>] 1 0 \<and>
   \<not> sparse_reach [\<lparr>debounce_counter_t.remaining = 0, next = 255\<rparr>,
                   \<lparr>debounce_counter_t.remaining = 0, next = 255\<rparr>] 255 1"
proof -
  let ?cfg = "sparse_defaults 2"
  let ?g = "\<lparr>debounce_counters = [], debounce_list_head = 0, last_time_initialized = False,
         last_time = 0 :: 16 word\<rparr>"
  let ?calls = "[(1, [2], True), (4, [2], False), (6, [2], False)]
                  :: (16 word \<times> 8 word list \<times> bool) list"
  have h: "window_ok ?cfg" "0 < MATRIX_COLS ?cfg" "1 * MATRIX_COLS ?cfg < 255"
    "(1::nat) \<le> length [0 :: 8 word]"
    by (simp_all add: window_ok_def sparse_defaults_def DEBOUNCE_def)
  have tr: "scan_trace (sparse_scan ?cfg 1) ?calls
     (Some (Inr ([0 :: 8 word], sparse_debounce_init ?cfg 1 ?g)))
   = [Some (Inr ([0],
        \<lparr>debounce_counters = [\<lparr>debounce_counter_t.remaining = 0, next = 255\<rparr>,
                              \<lparr>debounce_counter_t.remaining = 5, next = 255\<rparr>],
         debounce_list_head = 1, last_time_initialized = True, last_time = 1\<rparr>)),
      Some (Inr ([0],
        \<lparr>debounce_counters = [\<lparr>debounce_counter_t.remaining = 0, next = 255\<rparr>,
                              \<lparr>debounce_counter_t.remaining = 2, next = 255\<rparr>],
         debounce_list_head = 1, last_time_initialized = True, last_time = 4\<rparr>)),
      Some (Inr ([2],
        \<lparr>debounce_counters = [\<lparr>debounce_counter_t.remaining = 0, next = 255\<rparr>,
                              \<lparr>debounce_counter_t.remaining = 0, next = 255\<rparr>],
         debounce_list_head = 255, last_time_initialized = True, last_time = 6\<rparr>))]"
    by code_simp
  note t = sparse_list_lockstep [OF h, where g = ?g and calls = ?calls]
  from t have r: "sparse_reach [\<lparr>debounce_counter_t.remaining = 0, next = 255\<rparr>,
                 \<lparr>debounce_counter_t.remaining = 2, next = 255\<rparr>] 1 1 \<and>
   \<not> sparse_reach [\<lparr>debounce_counter_t.remaining = 0, next = 255\<rparr>,
                   \<lparr>debounce_counter_t.remaining = 2, next = 255\<rparr>] 1 0 \<and>
   \<not> sparse_reach [\<lparr>debounce_counter_t.remaining = 0, next = 255\<rparr>,
                   \<lparr>debounce_counter_t.remaining = 0, next = 255\<rparr>] 255 1"
    unfolding tr by (simp add: sparse_defaults_def less_Suc_eq)
  show ?thesis
    by (intro conjI h tr r [THEN conjunct1] r [THEN conjunct2, THEN conjunct1]
        r [THEN conjunct2, THEN conjunct2])
qed

text \<open>One call of the sparse-list engine on the view of one cell.\<close>

lemma sparse_scan_view:
  fixes r :: "(abort + 'a::len word list \<times> 't::len word sparse) option"
  assumes ok: "sparse_ok cfg num_rows r" and n: "0 < MATRIX_COLS cfg" and w: "window_ok cfg"
    and cell: "row < num_rows" "col < MATRIX_COLS cfg"
    and v: "sparse_view cfg row col r = Some v"
  shows "sparse_ok cfg num_rows (sparse_scan cfg num_rows (now, raw, changed) r) \<and>
         sparse_view cfg row col (sparse_scan cfg num_rows (now, raw, changed) r) =
           Some (sparse_cell cfg changed (sparse_elapsed_of now r) (bit (raw ! row) col) v)"
proof (rule sparse_scan_cell [OF ok n w cell, where now = now and raw = raw and changed = changed])
  fix cooked cooked' :: "'a word list" and g g' :: "'t word sparse"
  assume r: "r = Some (Inr (cooked, g))"
    and res: "sparse_scan cfg num_rows (now, raw, changed) r = Some (Inr (cooked', g'))"
    and ok': "sparse_ok cfg num_rows (Some (Inr (cooked', g')))"
    and v': "sparse_view cfg row col (Some (Inr (cooked', g'))) =
       Some (sparse_cell cfg changed (fst (sparse_get_elapsed now g)) (bit (raw ! row) col)
         (bit (cooked ! row) col,
          debounce_counter_t.remaining (debounce_counters g ! (row * MATRIX_COLS cfg + col))))"
  from v r have "(bit (cooked ! row) col,
      debounce_counter_t.remaining (debounce_counters g ! (row * MATRIX_COLS cfg + col))) = v"
    by (simp add: sparse_view_def)
  with v' have "sparse_view cfg row col (Some (Inr (cooked', g'))) =
       Some (sparse_cell cfg changed (sparse_elapsed_of now r) (bit (raw ! row) col) v)"
    by (simp add: sparse_elapsed_of_def r)
  with ok' show ?thesis by (simp only: res)
qed

lemma asym_cell_settled: "asym_cell cfg changed e b (b, 0) = (b, 0)"
  by (simp add: asym_cell_def)

lemma sparse_cell_settled: "sparse_cell cfg changed e b (b, 0) = (b, 0)"
  by (simp add: sparse_cell_def sparse_arm_cell_def)

lemma fancy_cell_waiting:
  "state k = WAITING \<Longrightarrow> fancy_cell cfg e a b (b, k) = (b, k)"
  by (simp add: fancy_cell_def)

lemma map_constant: "\<forall>x\<in>set xs. f x = v \<Longrightarrow> map f xs = replicate (length xs) v"
  by (induction xs) simp_all

lemma cooked_unchanged:
  fixes c c' :: "'a::len word list"
  assumes "length c' = length c"
    and "\<And>r k. r < num_rows \<Longrightarrow> bit (c' ! r) k = bit (c ! r) k"
    and "\<And>r. num_rows \<le> r \<Longrightarrow> r < length c \<Longrightarrow> c' ! r = c ! r"
  shows "c' = c"
proof (rule nth_equalityI)
  show "length c' = length c" by (fact assms(1))
next
  fix i assume "i < length c'"
  then have i: "i < length c" using assms(1) by simp
  show "c' ! i = c ! i"
  proof (cases "i < num_rows")
    case True
    then show ?thesis by (intro bit_eqI) (simp add: assms(2))
  next
    case False
    then show ?thesis using i by (intro assms(3)) simp_all
  qed
qed

lemma asym_scan_settled:
  fixes s :: "'a::len word list \<times> asym"
  assumes ok: "asym_ok cfg num_rows s" and cols: "MATRIX_COLS cfg < 256" and w: "window_ok cfg"
    and st: "asym_settled cfg num_rows raw s"
  shows "asym_ok cfg num_rows (asym_scan cfg num_rows (now, raw, changed) s)"
    and "fst (asym_scan cfg num_rows (now, raw, changed) s) = fst s"
    and "asym_settled cfg num_rows raw' (asym_scan cfg num_rows (now, raw, changed) s) =
         asym_settled cfg num_rows raw' s"
proof -
  obtain cooked g where s: "s = (cooked, g)" by (cases s)
  obtain cooked' g' where r: "asym_debounce cfg now raw cooked num_rows changed g = (cooked', g')"
    by (cases "asym_debounce cfg now raw cooked num_rows changed g")
  from ok have inv: "asym_inv cfg num_rows g" and len: "num_rows \<le> length cooked"
    by (simp_all add: asym_ok_def s)
  note f = asym_debounce_cells [OF inv cols w len r]
  have v: "asym_view cfg row col (cooked', g') = asym_view cfg row col (cooked, g)"
    if "row < num_rows" "col < MATRIX_COLS cfg" for row col
  proof -
    from st that have "asym_view cfg row col (cooked, g) = (bit (raw ! row) col, 0)"
      by (simp add: asym_settled_def s)
    with f(4) [OF that] show ?thesis by (simp add: asym_view_def asym_cell_settled)
  qed
  have eq: "cooked' = cooked"
  proof (rule cooked_unchanged [where num_rows = num_rows])
    show "length cooked' = length cooked" by (fact f(2))
  next
    fix r k assume r: "r < num_rows"
    show "bit (cooked' ! r) k = bit (cooked ! r) k"
    proof (cases "k < MATRIX_COLS cfg")
      case True
      from v [OF r True] show ?thesis by (simp add: asym_view_def)
    next
      case False
      then show ?thesis using r by (intro f(5)) simp_all
    qed
  next
    fix r assume "num_rows \<le> r"
    then show "cooked' ! r = cooked ! r" by (rule f(6))
  qed
  show "asym_ok cfg num_rows (asym_scan cfg num_rows (now, raw, changed) s)"
    using f(1,2) len by (simp add: asym_ok_def asym_scan_def s r)
  show "fst (asym_scan cfg num_rows (now, raw, changed) s) = fst s"
    using eq by (simp add: asym_scan_def s r)
  show "asym_settled cfg num_rows raw' (asym_scan cfg num_rows (now, raw, changed) s) =
         asym_settled cfg num_rows raw' s"
    using v by (simp add: asym_settled_def asym_scan_def s r)
qed

lemma sparse_scan_settled:
  fixes r :: "(abort + 'a::len word list \<times> 't::len word sparse) option"
  assumes ok: "sparse_ok cfg num_rows r" and n: "0 < MATRIX_COLS cfg" and w: "window_ok cfg"
    and st: "sparse_settled cfg num_rows raw r"
  shows "sparse_ok cfg num_rows (sparse_scan cfg num_rows (now, raw, changed) r)"
    and "sparse_cooked (sparse_scan cfg num_rows (now, raw, changed) r) = sparse_cooked r"
    and "sparse_settled cfg num_rows raw' (sparse_scan cfg num_rows (now, raw, changed) r) =
         sparse_settled cfg num_rows raw' r"
proof -
  let ?rem = "debounce_counter_t.remaining"
  from ok obtain cooked g where r: "r = Some (Inr (cooked, g))"
    and inv: "sparse_inv cfg num_rows g" and len: "num_rows \<le> length cooked"
    by (rule sparse_okE)
  from sparse_debounce_cells [OF inv n w len, of now raw changed]
  obtain s' where res': "sparse_debounce cfg now raw cooked num_rows changed g = Some (Inr s')"
    and post': "sparse_call_post cfg num_rows now raw changed cooked g s'"
    by (elim exE conjE)
  obtain cooked' g' where s': "s' = (cooked', g')" by (cases s')
  note res = res' [unfolded s'] and post = post' [unfolded s' sparse_call_post_def prod.case]
  from post have inv': "sparse_inv cfg num_rows g'" and len': "length cooked' = length cooked"
    by simp_all
  have v: "sparse_view cfg row col (Some (Inr (cooked', g'))) = sparse_view cfg row col r"
    if "row < num_rows" "col < MATRIX_COLS cfg" for row col
  proof -
    from st that have old: "(bit (cooked ! row) col,
        ?rem (debounce_counters g ! (row * MATRIX_COLS cfg + col))) = (bit (raw ! row) col, 0)"
      by (simp add: sparse_settled_def sparse_view_def r)
    from post that have "(bit (cooked' ! row) col,
        ?rem (debounce_counters g' ! (row * MATRIX_COLS cfg + col))) =
      sparse_cell cfg changed (fst (sparse_get_elapsed now g)) (bit (raw ! row) col)
        (bit (cooked ! row) col, ?rem (debounce_counters g ! (row * MATRIX_COLS cfg + col)))"
      by blast
    with old show ?thesis by (simp add: sparse_view_def r sparse_cell_settled)
  qed
  have eq: "cooked' = cooked"
  proof (rule cooked_unchanged [where num_rows = num_rows])
    show "length cooked' = length cooked" by (fact len')
  next
    fix i k assume i: "i < num_rows"
    show "bit (cooked' ! i) k = bit (cooked ! i) k"
    proof (cases "k < MATRIX_COLS cfg")
      case True
      from v [OF i True] show ?thesis by (simp add: sparse_view_def r)
    next
      case False
      with post i show ?thesis by simp
    qed
  next
    fix i assume "num_rows \<le> i" "i < length cooked"
    with post show "cooked' ! i = cooked ! i" by blast
  qed
  have sc: "sparse_scan cfg num_rows (now, raw, changed) r = Some (Inr (cooked', g'))"
    using res by (simp add: sparse_scan_def r)
  show "sparse_ok cfg num_rows (sparse_scan cfg num_rows (now, raw, changed) r)"
    using inv' len len' by (simp add: sc sparse_ok_def)
  show "sparse_cooked (sparse_scan cfg num_rows (now, raw, changed) r) = sparse_cooked r"
    using eq by (simp add: sc [unfolded r] sparse_cooked_def r)
  show "sparse_settled cfg num_rows raw' (sparse_scan cfg num_rows (now, raw, changed) r) =
         sparse_settled cfg num_rows raw' r"
    unfolding sc sparse_settled_def using v by simp
qed

lemma fancy_scan_settled:
  fixes s :: "'a::len word list \<times> 't::len word fancy"
  assumes ok: "fancy_ok cfg num_rows s" and st: "fancy_settled cfg num_rows raw s"
  shows "fancy_ok cfg num_rows (fancy_scan cfg num_rows (now, raw_addr, raw, changed) s)"
    and "fst (fancy_scan cfg num_rows (now, raw_addr, raw, changed) s) = fst s"
    and "fancy_settled cfg num_rows raw' (fancy_scan cfg num_rows (now, raw_addr, raw, changed) s) =
         fancy_settled cfg num_rows raw' s"
proof -
  obtain cooked g where s: "s = (cooked, g)" by (cases s)
  obtain cooked' g' where
    r: "fancy_debounce cfg now raw_addr raw cooked num_rows changed g = (cooked', g')"
    by (cases "fancy_debounce cfg now raw_addr raw cooked num_rows changed g")
  from ok have lks: "length (key_states g) = num_rows * MATRIX_COLS cfg"
    and len: "num_rows \<le> length cooked"
    by (simp_all add: fancy_ok_def s)
  note f = fancy_debounce_cells [OF lks len r]
  have v: "fancy_view cfg row col (cooked', g') = fancy_view cfg row col (cooked, g)"
    if "row < num_rows" "col < MATRIX_COLS cfg" for row col
  proof -
    from st that have "bit (cooked ! row) col = bit (raw ! row) col"
      "state (key_states g ! (row * MATRIX_COLS cfg + col)) = WAITING"
      by (simp_all add: fancy_settled_def fancy_view_def s)
    with f(5) [OF that] show ?thesis by (simp add: fancy_view_def fancy_cell_waiting)
  qed
  have eq: "cooked' = cooked"
  proof (rule cooked_unchanged [where num_rows = num_rows])
    show "length cooked' = length cooked" by (fact f(2))
  next
    fix i k assume i: "i < num_rows"
    show "bit (cooked' ! i) k = bit (cooked ! i) k"
    proof (cases "k < MATRIX_COLS cfg")
      case True
      from v [OF i True] show ?thesis by (simp add: fancy_view_def)
    next
      case False
      then show ?thesis using i by (intro f(6)) simp_all
    qed
  next
    fix i assume "num_rows \<le> i"
    then show "cooked' ! i = cooked ! i" by (rule f(7))
  qed
  show "fancy_ok cfg num_rows (fancy_scan cfg num_rows (now, raw_addr, raw, changed) s)"
    using f(1,2) len by (simp add: fancy_ok_def fancy_scan_def s r)
  show "fst (fancy_scan cfg num_rows (now, raw_addr, raw, changed) s) = fst s"
    using eq by (simp add: fancy_scan_def s r)
  show "fancy_settled cfg num_rows raw' (fancy_scan cfg num_rows (now, raw_addr, raw, changed) s) =
         fancy_settled cfg num_rows raw' s"
    using v by (simp add: fancy_settled_def fancy_scan_def s r)
qed

text \<open>
  C8. A settled cell stays as it is. In each engine, if a cell's counter is zero (in
  the quiescing engine: its state is \<open>WAITING\<close>) and every following call of
  \<open>debounce\<close> presents the raw bit of that cell equal to its cooked bit, then after
  every one of these calls the cooked bit is the same and the cell is settled again;
  the calls of the sparse-list engine all return. When this holds of every cell of the
  matrix, the whole cooked matrix is the same after every call.
\<close>

theorem settled_state_idempotent:
  fixes sa :: "'a::len word list \<times> asym"
    and rs :: "(abort + 'a word list \<times> 't::len word sparse) option"
    and sf :: "'a word list \<times> 't word fancy"
  assumes w: "window_ok cfg" and n: "0 < MATRIX_COLS cfg" and cols: "MATRIX_COLS cfg < 256"
    and cell: "row < num_rows" "col < MATRIX_COLS cfg"
  shows
    "(asym_ok cfg num_rows sa \<and> asym_view cfg row col sa = (b, 0) \<and>
      (\<forall>(now, raw, changed)\<in>set calls_a. bit (raw ! row) col = b) \<longrightarrow>
      (\<forall>s'\<in>set (scan_trace (asym_scan cfg num_rows) calls_a sa).
         asym_view cfg row col s' = (b, 0))) \<and>
     (sparse_ok cfg num_rows rs \<and> sparse_view cfg row col rs = Some (b, 0) \<and>
      (\<forall>(now, raw, changed)\<in>set calls_s. bit (raw ! row) col = b) \<longrightarrow>
      (\<forall>r'\<in>set (scan_trace (sparse_scan cfg num_rows) calls_s rs).
         sparse_view cfg row col r' = Some (b, 0))) \<and>
     (fancy_ok cfg num_rows sf \<and> fst (fancy_view cfg row col sf) = b \<and>
      state (snd (fancy_view cfg row col sf)) = WAITING \<and>
      (\<forall>(now, raw_addr, raw, changed)\<in>set calls_f. bit (raw ! row) col = b) \<longrightarrow>
      (\<forall>s'\<in>set (scan_trace (fancy_scan cfg num_rows) calls_f sf).
         fst (fancy_view cfg row col s') = b \<and>
         state (snd (fancy_view cfg row col s')) = WAITING)) \<and>
     (asym_ok cfg num_rows sa \<and>
      (\<forall>(now, raw, changed)\<in>set all_a. asym_settled cfg num_rows raw sa) \<longrightarrow>
      (\<forall>s'\<in>set (scan_trace (asym_scan cfg num_rows) all_a sa). fst s' = fst sa)) \<and>
     (sparse_ok cfg num_rows rs \<and>
      (\<forall>(now, raw, changed)\<in>set all_s. sparse_settled cfg num_rows raw rs) \<longrightarrow>
      (\<forall>r'\<in>set (scan_trace (sparse_scan cfg num_rows) all_s rs).
         sparse_cooked r' = sparse_cooked rs)) \<and>
     (fancy_ok cfg num_rows sf \<and>
      (\<forall>(now, raw_addr, raw, changed)\<in>set all_f. fancy_settled cfg num_rows raw sf) \<longrightarrow>
      (\<forall>s'\<in>set (scan_trace (fancy_scan cfg num_rows) all_f sf). fst s' = fst sf))"
proof (intro conjI impI)
  assume a: "asym_ok cfg num_rows sa \<and> asym_view cfg row col sa = (b, 0) \<and>
      (\<forall>(now, raw, changed)\<in>set calls_a. bit (raw ! row) col = b)"
  let ?P = "\<lambda>s :: 'a word list \<times> asym. asym_ok cfg num_rows s \<and> asym_view cfg row col s = (b, 0)"
  have "(\<forall>s'\<in>set (scan_trace (asym_scan cfg num_rows) calls_a sa). ?P s') \<and>
        ?P (fold (asym_scan cfg num_rows) calls_a sa)"
  proof (rule scan_invariant [where P = ?P])
    show "?P sa" using a by simp
  next
    fix c :: "16 word \<times> 'a word list \<times> bool" and s :: "'a word list \<times> asym"
    assume c: "c \<in> set calls_a" and p: "?P s"
    obtain now raw changed where ce: "c = (now, raw, changed)" by (cases c)
    from a c ce have rb: "bit (raw ! row) col = b" by auto
    from p have ok: "asym_ok cfg num_rows s" and v: "asym_view cfg row col s = (b, 0)" by simp_all
    note f = asym_scan_cell [OF ok cols w cell, of now raw changed]
    show "?P (asym_scan cfg num_rows c s)"
      using f(1) f(3) by (simp add: ce rb v asym_cell_settled)
  qed
  then show "\<forall>s'\<in>set (scan_trace (asym_scan cfg num_rows) calls_a sa).
         asym_view cfg row col s' = (b, 0)" by simp
next
  assume a: "sparse_ok cfg num_rows rs \<and> sparse_view cfg row col rs = Some (b, 0) \<and>
      (\<forall>(now, raw, changed)\<in>set calls_s. bit (raw ! row) col = b)"
  let ?P = "\<lambda>r :: (abort + 'a word list \<times> 't word sparse) option.
              sparse_ok cfg num_rows r \<and> sparse_view cfg row col r = Some (b, 0)"
  have "(\<forall>r'\<in>set (scan_trace (sparse_scan cfg num_rows) calls_s rs). ?P r') \<and>
        ?P (fold (sparse_scan cfg num_rows) calls_s rs)"
  proof (rule scan_invariant [where P = ?P])
    show "?P rs" using a by simp
  next
    fix c :: "'t word \<times> 'a word list \<times> bool"
      and r :: "(abort + 'a word list \<times> 't word sparse) option"
    assume c: "c \<in> set calls_s" and p: "?P r"
    obtain now raw changed where ce: "c = (now, raw, changed)" by (cases c)
    from a c ce have rb: "bit (raw ! row) col = b" by auto
    from p have ok: "sparse_ok cfg num_rows r" and v: "sparse_view cfg row col r = Some (b, 0)"
      by simp_all
    from sparse_scan_view [OF ok n w cell v, of now raw changed]
    show "?P (sparse_scan cfg num_rows c r)" by (simp add: ce rb sparse_cell_settled)
  qed
  then show "\<forall>r'\<in>set (scan_trace (sparse_scan cfg num_rows) calls_s rs).
         sparse_view cfg row col r' = Some (b, 0)" by simp
next
  assume a: "fancy_ok cfg num_rows sf \<and> fst (fancy_view cfg row col sf) = b \<and>
      state (snd (fancy_view cfg row col sf)) = WAITING \<and>
      (\<forall>(now, raw_addr, raw, changed)\<in>set calls_f. bit (raw ! row) col = b)"
  let ?P = "\<lambda>s :: 'a word list \<times> 't word fancy. fancy_ok cfg num_rows s \<and>
              fst (fancy_view cfg row col s) = b \<and>
              state (snd (fancy_view cfg row col s)) = WAITING"
  have "(\<forall>s'\<in>set (scan_trace (fancy_scan cfg num_rows) calls_f sf). ?P s') \<and>
        ?P (fold (fancy_scan cfg num_rows) calls_f sf)"
  proof (rule scan_invariant [where P = ?P])
    show "?P sf" using a by simp
  next
    fix c :: "'t word \<times> 'a word \<times> 'a word list \<times> bool" and s :: "'a word list \<times> 't word fancy"
    assume c: "c \<in> set calls_f" and p: "?P s"
    obtain now raw_addr raw changed where ce: "c = (now, raw_addr, raw, changed)" by (cases c)
    from a c ce have rb: "bit (raw ! row) col = b" by auto
    from p have ok: "fancy_ok cfg num_rows s" and v1: "fst (fancy_view cfg row col s) = b"
      and v2: "state (snd (fancy_view cfg row col s)) = WAITING" by simp_all
    obtain k where v: "fancy_view cfg row col s = (b, k)" and k: "state k = WAITING"
      using v1 v2 by (cases "fancy_view cfg row col s") simp
    note f = fancy_scan_cell [OF ok cell, of now raw_addr raw changed]
    show "?P (fancy_scan cfg num_rows c s)"
      using f(1) f(4) k by (simp add: ce rb v fancy_cell_waiting)
  qed
  then show "\<forall>s'\<in>set (scan_trace (fancy_scan cfg num_rows) calls_f sf).
         fst (fancy_view cfg row col s') = b \<and>
         state (snd (fancy_view cfg row col s')) = WAITING" by simp
next
  assume a: "asym_ok cfg num_rows sa \<and>
      (\<forall>(now, raw, changed)\<in>set all_a. asym_settled cfg num_rows raw sa)"
  let ?P = "\<lambda>s :: 'a word list \<times> asym. asym_ok cfg num_rows s \<and> fst s = fst sa \<and>
              (\<forall>raw'. asym_settled cfg num_rows raw' s = asym_settled cfg num_rows raw' sa)"
  have "(\<forall>s'\<in>set (scan_trace (asym_scan cfg num_rows) all_a sa). ?P s') \<and>
        ?P (fold (asym_scan cfg num_rows) all_a sa)"
  proof (rule scan_invariant [where P = ?P])
    show "?P sa" using a by simp
  next
    fix c :: "16 word \<times> 'a word list \<times> bool" and s :: "'a word list \<times> asym"
    assume c: "c \<in> set all_a" and p: "?P s"
    obtain now raw changed where ce: "c = (now, raw, changed)" by (cases c)
    from a c ce have "asym_settled cfg num_rows raw sa" by auto
    with p have ok: "asym_ok cfg num_rows s" and st: "asym_settled cfg num_rows raw s" by simp_all
    note f = asym_scan_settled [OF ok cols w st, where now = now and changed = changed]
    show "?P (asym_scan cfg num_rows c s)" using f p by (simp add: ce)
  qed
  then show "\<forall>s'\<in>set (scan_trace (asym_scan cfg num_rows) all_a sa). fst s' = fst sa" by simp
next
  assume a: "sparse_ok cfg num_rows rs \<and>
      (\<forall>(now, raw, changed)\<in>set all_s. sparse_settled cfg num_rows raw rs)"
  let ?P = "\<lambda>r :: (abort + 'a word list \<times> 't word sparse) option.
              sparse_ok cfg num_rows r \<and> sparse_cooked r = sparse_cooked rs \<and>
              (\<forall>raw'. sparse_settled cfg num_rows raw' r = sparse_settled cfg num_rows raw' rs)"
  have "(\<forall>r'\<in>set (scan_trace (sparse_scan cfg num_rows) all_s rs). ?P r') \<and>
        ?P (fold (sparse_scan cfg num_rows) all_s rs)"
  proof (rule scan_invariant [where P = ?P])
    show "?P rs" using a by simp
  next
    fix c :: "'t word \<times> 'a word list \<times> bool"
      and r :: "(abort + 'a word list \<times> 't word sparse) option"
    assume c: "c \<in> set all_s" and p: "?P r"
    obtain now raw changed where ce: "c = (now, raw, changed)" by (cases c)
    from a c ce have "sparse_settled cfg num_rows raw rs" by auto
    with p have ok: "sparse_ok cfg num_rows r" and st: "sparse_settled cfg num_rows raw r"
      by simp_all
    note f = sparse_scan_settled [OF ok n w st, where now = now and changed = changed]
    show "?P (sparse_scan cfg num_rows c r)" using f p by (simp add: ce)
  qed
  then show "\<forall>r'\<in>set (scan_trace (sparse_scan cfg num_rows) all_s rs).
         sparse_cooked r' = sparse_cooked rs" by simp
next
  assume a: "fancy_ok cfg num_rows sf \<and>
      (\<forall>(now, raw_addr, raw, changed)\<in>set all_f. fancy_settled cfg num_rows raw sf)"
  let ?P = "\<lambda>s :: 'a word list \<times> 't word fancy. fancy_ok cfg num_rows s \<and> fst s = fst sf \<and>
              (\<forall>raw'. fancy_settled cfg num_rows raw' s = fancy_settled cfg num_rows raw' sf)"
  have "(\<forall>s'\<in>set (scan_trace (fancy_scan cfg num_rows) all_f sf). ?P s') \<and>
        ?P (fold (fancy_scan cfg num_rows) all_f sf)"
  proof (rule scan_invariant [where P = ?P])
    show "?P sf" using a by simp
  next
    fix c :: "'t word \<times> 'a word \<times> 'a word list \<times> bool" and s :: "'a word list \<times> 't word fancy"
    assume c: "c \<in> set all_f" and p: "?P s"
    obtain now raw_addr raw changed where ce: "c = (now, raw_addr, raw, changed)" by (cases c)
    from a c ce have "fancy_settled cfg num_rows raw sf" by auto
    with p have ok: "fancy_ok cfg num_rows s" and st: "fancy_settled cfg num_rows raw s"
      by simp_all
    note f = fancy_scan_settled [OF ok st, where now = now and raw_addr = raw_addr and changed = changed]
    show "?P (fancy_scan cfg num_rows c s)" using f p by (simp add: ce)
  qed
  then show "\<forall>s'\<in>set (scan_trace (fancy_scan cfg num_rows) all_f sf). fst s' = fst sf" by simp
qed

text \<open>
  One row of two columns with cell (0, 1) pressed and settled. A call that changes
  nothing and a call in which cell (0, 0) is pressed leave cell (0, 1) as it is, in all
  three engines, while cell (0, 0) is armed. Two calls on the unchanged raw matrix
  leave the whole cooked matrix as it is.
\<close>

theorem settled_state_idempotent_witness:
  "window_ok (sparse_defaults 2) \<and>
   0 < MATRIX_COLS (sparse_defaults 2) \<and>
   MATRIX_COLS (sparse_defaults 2) < 256 \<and>
   (0::nat) < 1 \<and>
   1 < MATRIX_COLS (sparse_defaults 2) \<and>
   asym_ok (sparse_defaults 2) 1 ([2 :: 8 word], asym_debounce_init (sparse_defaults 2) 1 0) \<and>
   asym_view (sparse_defaults 2) 0 1 ([2 :: 8 word], asym_debounce_init (sparse_defaults 2) 1 0) = (True, 0) \<and>
   sparse_ok (sparse_defaults 2) 1 (Some (Inr ([2 :: 8 word], sparse_debounce_init (sparse_defaults 2) 1
        \<lparr>debounce_counters = [], debounce_list_head = 0, last_time_initialized = False,
         last_time = 0 :: 16 word\<rparr>))) \<and>
   sparse_view (sparse_defaults 2) 0 1 (Some (Inr ([2 :: 8 word], sparse_debounce_init (sparse_defaults 2) 1
        \<lparr>debounce_counters = [], debounce_list_head = 0, last_time_initialized = False,
         last_time = 0 :: 16 word\<rparr>))) = Some (True, 0) \<and>
   fancy_ok (sparse_defaults 2) 1 ([2 :: 8 word], fancy_debounce_init (sparse_defaults 2) 1 (\<lambda>i. 7)
        \<lparr>key_states = [], last_time_initialized = False, last_time = 0 :: 16 word,
         first_time = 0\<rparr>) \<and>
   fst (fancy_view (sparse_defaults 2) 0 1 ([2 :: 8 word], fancy_debounce_init (sparse_defaults 2) 1 (\<lambda>i. 7)
        \<lparr>key_states = [], last_time_initialized = False, last_time = 0 :: 16 word,
         first_time = 0\<rparr>)) \<and>
   key_state_t.state (snd (fancy_view (sparse_defaults 2) 0 1 ([2 :: 8 word], fancy_debounce_init (sparse_defaults 2) 1 (\<lambda>i. 7)
        \<lparr>key_states = [], last_time_initialized = False, last_time = 0 :: 16 word,
         first_time = 0\<rparr>))) = WAITING \<and>
   scan_trace (asym_scan (sparse_defaults 2) 1) [(3, [2], False), (4, [3], True)] ([2 :: 8 word], asym_debounce_init (sparse_defaults 2) 1 0) =
     [([2], \<lparr>asym.last_time = 0, asym.state = [\<lparr>count = 0\<rparr>, \<lparr>count = 0\<rparr>], row_counts = [0]\<rparr>),
      ([2], \<lparr>asym.last_time = 0, asym.state = [\<lparr>count = 5\<rparr>, \<lparr>count = 0\<rparr>], row_counts = [1]\<rparr>)] \<and>
   scan_trace (sparse_scan (sparse_defaults 2) 1) [(3, [2], False), (4, [3], True)] (Some (Inr ([2 :: 8 word], sparse_debounce_init (sparse_defaults 2) 1
        \<lparr>debounce_counters = [], debounce_list_head = 0, last_time_initialized = False,
         last_time = 0 :: 16 word\<rparr>))) =
     [Some (Inr ([2],
        \<lparr>debounce_counters = [\<lparr>debounce_counter_t.remaining = 0, next = 255\<rparr>,
                              \<lparr>debounce_counter_t.remaining = 0, next = 255\<rparr>],
         debounce_list_head = 255, last_time_initialized = True, last_time = 3\<rparr>)),
      Some (Inr ([2],
        \<lparr>debounce_counters = [\<lparr>debounce_counter_t.remaining = 5, next = 255\<rparr>,
                              \<lparr>debounce_counter_t.remaining = 0, next = 255\<rparr>],
         debounce_list_head = 0, last_time_initialized = True, last_time = 4\<rparr>))] \<and>
   scan_trace (fancy_scan (sparse_defaults 2) 1) [(3, 0, [2], False), (4, 0, [3], True)] ([2 :: 8 word], fancy_debounce_init (sparse_defaults 2) 1 (\<lambda>i. 7)
        \<lparr>key_states = [], last_time_initialized = False, last_time = 0 :: 16 word,
         first_time = 0\<rparr>) =
     [([2], \<lparr>key_states = [\<lparr>key_state_t.state = WAITING, remaining = 7\<rparr>,
                           \<lparr>key_state_t.state = WAITING, remaining = 7\<rparr>],
             last_time_initialized = True, last_time = 3, first_time = 3\<rparr>),
      ([2], \<lparr>key_states = [\<lparr>key_state_t.state = DEBOUNCING, remaining = 10\<rparr>,
                           \<lparr>key_state_t.state = WAITING, remaining = 7\<rparr>],
             last_time_initialized = True, last_time = 4, first_time = 3\<rparr>)] \<and>
   asym_view (sparse_defaults 2) 0 1
     ([2 :: 8 word], \<lparr>asym.last_time = 0, asym.state = [\<lparr>count = 5\<rparr>, \<lparr>count = 0\<rparr>], row_counts = [1]\<rparr>) = (True, 0) \<and>
   sparse_view (sparse_defaults 2) 0 1
     (Some (Inr ([2 :: 8 word],
        \<lparr>debounce_counters = [\<lparr>debounce_counter_t.remaining = 5, next = 255\<rparr>,
                              \<lparr>debounce_counter_t.remaining = 0, next = 255\<rparr>],
         debounce_list_head = 0, last_time_initialized = True, last_time = 4 :: 16 word\<rparr>))) = Some (True, 0) \<and>
   fst (fancy_view (sparse_defaults 2) 0 1
     ([2 :: 8 word], \<lparr>key_states = [\<lparr>key_state_t.state = DEBOUNCING, remaining = 10\<rparr>,
                           \<lparr>key_state_t.state = WAITING, remaining = 7\<rparr>],
             last_time_initialized = True, last_time = 4 :: 16 word, first_time = 3\<rparr>)) \<and>
   key_state_t.state (snd (fancy_view (sparse_defaults 2) 0 1
     ([2 :: 8 word], \<lparr>key_states = [\<lparr>key_state_t.state = DEBOUNCING, remaining = 10\<rparr>,
                           \<lparr>key_state_t.state = WAITING, remaining = 7\<rparr>],
             last_time_initialized = True, last_time = 4 :: 16 word, first_time = 3\<rparr>))) = WAITING \<and>
   asym_settled (sparse_defaults 2) 1 [2] ([2 :: 8 word], asym_debounce_init (sparse_defaults 2) 1 0) \<and>
   sparse_settled (sparse_defaults 2) 1 [2]
     (Some (Inr ([2 :: 8 word], sparse_debounce_init (sparse_defaults 2) 1
        \<lparr>debounce_counters = [], debounce_list_head = 0, last_time_initialized = False,
         last_time = 0 :: 16 word\<rparr>))) \<and>
   fancy_settled (sparse_defaults 2) 1 [2]
     ([2 :: 8 word], fancy_debounce_init (sparse_defaults 2) 1 (\<lambda>i. 7)
        \<lparr>key_states = [], last_time_initialized = False, last_time = 0 :: 16 word,
         first_time = 0\<rparr>) \<and>
   map fst (scan_trace (asym_scan (sparse_defaults 2) 1) [(3, [2], False), (4, [2], True)]
     ([2 :: 8 word], asym_debounce_init (sparse_defaults 2) 1 0)) = replicate 2 [2] \<and>
   map sparse_cooked (scan_trace (sparse_scan (sparse_defaults 2) 1) [(3, [2], False), (4, [2], True)]
     (Some (Inr ([2 :: 8 word], sparse_debounce_init (sparse_defaults 2) 1
        \<lparr>debounce_counters = [], debounce_list_head = 0, last_time_initialized = False,
         last_time = 0 :: 16 word\<rparr>)))) = replicate 2 (Some [2]) \<and>
   map fst (scan_trace (fancy_scan (sparse_defaults 2) 1) [(3, 0, [2], False), (4, 0, [2], True)]
     ([2 :: 8 word], fancy_debounce_init (sparse_defaults 2) 1 (\<lambda>i. 7)
        \<lparr>key_states = [], last_time_initialized = False, last_time = 0 :: 16 word,
         first_time = 0\<rparr>)) = replicate 2 [2]"
proof -
  let ?cfg = "sparse_defaults 2"
  let ?sa = "([2 :: 8 word], asym_debounce_init (sparse_defaults 2) 1 0)"
  let ?rs = "(Some (Inr ([2 :: 8 word], sparse_debounce_init (sparse_defaults 2) 1
        \<lparr>debounce_counters = [], debounce_list_head = 0, last_time_initialized = False,
         last_time = 0 :: 16 word\<rparr>)))"
  let ?sf = "([2 :: 8 word], fancy_debounce_init (sparse_defaults 2) 1 (\<lambda>i. 7)
        \<lparr>key_states = [], last_time_initialized = False, last_time = 0 :: 16 word,
         first_time = 0\<rparr>)"
  let ?ca = "[(3, [2], False), (4, [3], True)] :: (16 word \<times> 8 word list \<times> bool) list"
  let ?cf = "[(3, 0, [2], False), (4, 0, [3], True)] :: (16 word \<times> 8 word \<times> 8 word list \<times> bool) list"
  have h: "window_ok ?cfg" "0 < MATRIX_COLS ?cfg" "MATRIX_COLS ?cfg < 256" "(0::nat) < 1"
    "1 < MATRIX_COLS ?cfg"
    by (simp_all add: window_ok_def sparse_defaults_def DEBOUNCE_def)
  have pa: "asym_ok ?cfg 1 ?sa" "asym_view ?cfg 0 1 ?sa = (True, 0)"
    using asym_init_ok [of ?cfg 1 0]
    by (simp_all add: asym_ok_def asym_view_def asym_debounce_init_def sparse_defaults_def)
  have ps: "sparse_ok ?cfg 1 ?rs" "sparse_view ?cfg 0 1 ?rs = Some (True, 0)"
  proof -
    have "1 * MATRIX_COLS ?cfg < 255" by (simp add: sparse_defaults_def)
    from sparse_init_inv [OF this] show "sparse_ok ?cfg 1 ?rs" by (simp add: sparse_ok_def)
    show "sparse_view ?cfg 0 1 ?rs = Some (True, 0)"
      by (simp add: sparse_view_def sparse_debounce_init_def sparse_defaults_def)
  qed
  have pf: "fancy_ok ?cfg 1 ?sf" "fst (fancy_view ?cfg 0 1 ?sf)"
    "key_state_t.state (snd (fancy_view ?cfg 0 1 ?sf)) = WAITING"
    by (simp_all add: fancy_ok_def fancy_view_def fancy_debounce_init_def sparse_defaults_def)
  have ta: "scan_trace (asym_scan ?cfg 1) ?ca ?sa =
     [([2], \<lparr>asym.last_time = 0, asym.state = [\<lparr>count = 0\<rparr>, \<lparr>count = 0\<rparr>], row_counts = [0]\<rparr>),
      ([2], \<lparr>asym.last_time = 0, asym.state = [\<lparr>count = 5\<rparr>, \<lparr>count = 0\<rparr>], row_counts = [1]\<rparr>)]"
    by code_simp
  have ts: "scan_trace (sparse_scan ?cfg 1) ?ca ?rs =
     [Some (Inr ([2],
        \<lparr>debounce_counters = [\<lparr>debounce_counter_t.remaining = 0, next = 255\<rparr>,
                              \<lparr>debounce_counter_t.remaining = 0, next = 255\<rparr>],
         debounce_list_head = 255, last_time_initialized = True, last_time = 3\<rparr>)),
      Some (Inr ([2],
        \<lparr>debounce_counters = [\<lparr>debounce_counter_t.remaining = 5, next = 255\<rparr>,
                              \<lparr>debounce_counter_t.remaining = 0, next = 255\<rparr>],
         debounce_list_head = 0, last_time_initialized = True, last_time = 4\<rparr>))]"
    by code_simp
  have tf: "scan_trace (fancy_scan ?cfg 1) ?cf ?sf =
     [([2], \<lparr>key_states = [\<lparr>key_state_t.state = WAITING, remaining = 7\<rparr>,
                           \<lparr>key_state_t.state = WAITING, remaining = 7\<rparr>],
             last_time_initialized = True, last_time = 3, first_time = 3\<rparr>),
      ([2], \<lparr>key_states = [\<lparr>key_state_t.state = DEBOUNCING, remaining = 10\<rparr>,
                           \<lparr>key_state_t.state = WAITING, remaining = 7\<rparr>],
             last_time_initialized = True, last_time = 4, first_time = 3\<rparr>)]"
    by code_simp
  let ?ma = "[(3, [2], False), (4, [2], True)] :: (16 word \<times> 8 word list \<times> bool) list"
  let ?mf = "[(3, 0, [2], False), (4, 0, [2], True)] :: (16 word \<times> 8 word \<times> 8 word list \<times> bool) list"
  have st: "asym_settled ?cfg 1 [2] ?sa" "sparse_settled ?cfg 1 [2] ?rs" "fancy_settled ?cfg 1 [2] ?sf"
    by (simp_all add: asym_settled_def sparse_settled_def fancy_settled_def asym_view_def
        sparse_view_def fancy_view_def asym_debounce_init_def sparse_debounce_init_def
        fancy_debounce_init_def sparse_defaults_def less_Suc_eq numeral_2_eq_2)
  note t = settled_state_idempotent [OF h, where sa = ?sa and rs = ?rs and sf = ?sf and b = True
      and calls_a = ?ca and calls_s = ?ca and calls_f = ?cf
      and all_a = ?ma and all_s = ?ma and all_f = ?mf]
  from t pa ps pf have c:
    "asym_view ?cfg 0 1
     ([2 :: 8 word], \<lparr>asym.last_time = 0, asym.state = [\<lparr>count = 5\<rparr>, \<lparr>count = 0\<rparr>], row_counts = [1]\<rparr>) = (True, 0)"
    "sparse_view ?cfg 0 1
     (Some (Inr ([2 :: 8 word],
        \<lparr>debounce_counters = [\<lparr>debounce_counter_t.remaining = 5, next = 255\<rparr>,
                              \<lparr>debounce_counter_t.remaining = 0, next = 255\<rparr>],
         debounce_list_head = 0, last_time_initialized = True, last_time = 4 :: 16 word\<rparr>))) = Some (True, 0)"
    "fst (fancy_view ?cfg 0 1
     ([2 :: 8 word], \<lparr>key_states = [\<lparr>key_state_t.state = DEBOUNCING, remaining = 10\<rparr>,
                           \<lparr>key_state_t.state = WAITING, remaining = 7\<rparr>],
             last_time_initialized = True, last_time = 4 :: 16 word, first_time = 3\<rparr>))"
    "key_state_t.state (snd (fancy_view ?cfg 0 1
     ([2 :: 8 word], \<lparr>key_states = [\<lparr>key_state_t.state = DEBOUNCING, remaining = 10\<rparr>,
                           \<lparr>key_state_t.state = WAITING, remaining = 7\<rparr>],
             last_time_initialized = True, last_time = 4 :: 16 word, first_time = 3\<rparr>))) = WAITING"
    unfolding ta ts tf by simp_all
  from t pa ps pf st
  have ua: "\<forall>s'\<in>set (scan_trace (asym_scan ?cfg 1) ?ma ?sa). fst s' = [2]"
    and us: "\<forall>r'\<in>set (scan_trace (sparse_scan ?cfg 1) ?ma ?rs). sparse_cooked r' = Some [2]"
    and uf: "\<forall>s'\<in>set (scan_trace (fancy_scan ?cfg 1) ?mf ?sf). fst s' = [2]"
    by (simp_all add: sparse_cooked_def)
  have l: "length (scan_trace (asym_scan ?cfg 1) ?ma ?sa) = 2"
    "length (scan_trace (sparse_scan ?cfg 1) ?ma ?rs) = 2"
    "length (scan_trace (fancy_scan ?cfg 1) ?mf ?sf) = 2" by simp_all
  note m = map_constant [OF ua, unfolded l] map_constant [OF us, unfolded l]
    map_constant [OF uf, unfolded l]
  show ?thesis
    by (intro conjI h pa ps pf ta ts tf c st m)
qed

lemma sparse_cell_flutter:
  "c \<noteq> 0 \<Longrightarrow> e < c \<Longrightarrow> sparse_cell cfg True e (\<not> b) (b, c) = (b, c)"
  for c e :: "8 word"
  by (auto simp add: sparse_cell_def sparse_arm_cell_def)

lemma sparse_cell_matched:
  "e < c \<Longrightarrow> sparse_cell cfg changed e b (b, c) = (b, c - e)"
  for c e :: "8 word"
  by (auto simp add: sparse_cell_def sparse_arm_cell_def)

lemma sparse_flutter_trace:
  fixes r :: "(abort + 'a::len word list \<times> 't::len word sparse) option"
  assumes n: "0 < MATRIX_COLS cfg" and w: "window_ok cfg"
    and cell: "row < num_rows" "col < MATRIX_COLS cfg" and c: "c \<noteq> 0"
  shows "sparse_ok cfg num_rows r \<Longrightarrow> sparse_view cfg row col r = Some (b, c) \<Longrightarrow>
    (\<forall>(now, raw, changed)\<in>set calls. changed \<and> bit (raw ! row) col \<noteq> b) \<Longrightarrow>
    (\<forall>e\<in>set (scan_elapsed sparse_call_elapsed (sparse_scan cfg num_rows) calls r). e < c) \<Longrightarrow>
    (\<forall>r'\<in>set (scan_trace (sparse_scan cfg num_rows) calls r).
       sparse_view cfg row col r' = Some (b, c))"
proof (induction calls arbitrary: r)
  case Nil
  show ?case by simp
next
  case (Cons k calls)
  obtain now raw changed where k: "k = (now, raw, changed)" by (cases k)
  from Cons.prems(3) k have ch: "changed" and rb: "bit (raw ! row) col = (\<not> b)" by auto
  from Cons.prems(4) k have e: "sparse_elapsed_of now r < c"
    by (simp add: sparse_call_elapsed_def)
  note f = sparse_scan_view [OF Cons.prems(1) n w cell Cons.prems(2), of now raw changed]
  from f have ok': "sparse_ok cfg num_rows (sparse_scan cfg num_rows k r)"
    and v': "sparse_view cfg row col (sparse_scan cfg num_rows k r) = Some (b, c)"
    using ch rb e c by (simp_all add: k sparse_cell_flutter)
  have "\<forall>r'\<in>set (scan_trace (sparse_scan cfg num_rows) calls (sparse_scan cfg num_rows k r)).
       sparse_view cfg row col r' = Some (b, c)"
    using Cons.prems(3,4) by (intro Cons.IH [OF ok' v']) simp_all
  with v' show ?case by simp
qed

text \<open>
  C2, as stated, fails. From \<open>debounce_init\<close> with the default windows
  (\<open>DEBOUNCE_DOWN\<close> 5, \<open>DEBOUNCE_UP\<close> 10), cell (0, 1) alternates between pressed and
  released at ticks 1 to 10, with \<open>changed\<close> set in every call and ending released. The
  press is linked with 5; every call that finds the raw bit released, equal to the
  cooked bit, counts down, and every call that finds it pressed counts down and adds
  the delta back. The ninth call finds the counter at 1 and commits the press; the
  tenth links the release with 10.
\<close>

theorem sparse_alternating_commits:
  "map (sparse_view (sparse_defaults 2) 0 1)
     (scan_trace (sparse_scan (sparse_defaults 2) 1)
        [(1, [2], True), (2, [0], True), (3, [2], True), (4, [0], True), (5, [2], True),
         (6, [0], True), (7, [2], True), (8, [0], True), (9, [2], True), (10, [0], True)]
        (Some (Inr ([0 :: 8 word], sparse_debounce_init (sparse_defaults 2) 1
           \<lparr>debounce_counters = [], debounce_list_head = 0, last_time_initialized = False,
            last_time = 0 :: 16 word\<rparr>))))
   = [Some (False, 5), Some (False, 4), Some (False, 4), Some (False, 3), Some (False, 3),
      Some (False, 2), Some (False, 2), Some (False, 1), Some (True, 0), Some (True, 10)]"
  by code_simp

text \<open>
  C2, amended. In the sparse-list engine a call with \<open>changed\<close> set that finds a linked
  cell still mismatched, with its counter above the elapsed delta, leaves the counter
  where it was before the call (the settle pass subtracts the delta, the arm pass adds
  it back) and the cooked bit as it is: a cell that every call finds in this situation
  never commits. A call that finds the raw bit equal to the cooked bit, with the counter
  above the elapsed delta, counts the counter down by the delta, so a cell that
  alternates is not deferred for ever.
\<close>

theorem sparse_flutter_defers:
  fixes r :: "(abort + 'a::len word list \<times> 't::len word sparse) option"
  assumes "window_ok cfg" and "0 < MATRIX_COLS cfg"
    and "row < num_rows" and "col < MATRIX_COLS cfg"
    and "sparse_ok cfg num_rows r" and "sparse_view cfg row col r = Some (b, c)" and "c \<noteq> 0"
  shows
    "((\<forall>(now, raw, changed)\<in>set calls. changed \<and> bit (raw ! row) col \<noteq> b) \<and>
      (\<forall>e\<in>set (scan_elapsed sparse_call_elapsed (sparse_scan cfg num_rows) calls r). e < c) \<longrightarrow>
      (\<forall>r'\<in>set (scan_trace (sparse_scan cfg num_rows) calls r).
         sparse_view cfg row col r' = Some (b, c))) \<and>
     (bit (raw ! row) col = b \<and> sparse_elapsed_of now r < c \<longrightarrow>
      sparse_view cfg row col (sparse_scan cfg num_rows (now, raw, changed) r) =
        Some (b, c - sparse_elapsed_of now r))"
proof (intro conjI impI)
  assume a: "(\<forall>(now, raw, changed)\<in>set calls. changed \<and> bit (raw ! row) col \<noteq> b) \<and>
      (\<forall>e\<in>set (scan_elapsed sparse_call_elapsed (sparse_scan cfg num_rows) calls r). e < c)"
  show "\<forall>r'\<in>set (scan_trace (sparse_scan cfg num_rows) calls r).
         sparse_view cfg row col r' = Some (b, c)"
    using a by (intro sparse_flutter_trace [OF assms(2,1,3,4,7,5,6)]) simp_all
next
  assume a: "bit (raw ! row) col = b \<and> sparse_elapsed_of now r < c"
  from sparse_scan_view [OF assms(5,2,1,3,4,6), of now raw changed] a
  show "sparse_view cfg row col (sparse_scan cfg num_rows (now, raw, changed) r) =
        Some (b, c - sparse_elapsed_of now r)"
    by (simp add: sparse_cell_matched)
qed

text \<open>
  Cell (0, 1) linked with 5 and pressed at three calls one tick apart, each with
  \<open>changed\<close> set: the counter is 5 after each of them. A call two ticks later that
  finds the key released counts it down to 3.
\<close>

theorem sparse_flutter_defers_witness:
  "window_ok (sparse_defaults 2) \<and>
   0 < MATRIX_COLS (sparse_defaults 2) \<and>
   (0::nat) < 1 \<and>
   1 < MATRIX_COLS (sparse_defaults 2) \<and>
   sparse_ok (sparse_defaults 2) 1
     (Some (Inr ([0 :: 8 word],
        \<lparr>debounce_counters = [\<lparr>debounce_counter_t.remaining = 0, next = 255\<rparr>,
                              \<lparr>debounce_counter_t.remaining = 5, next = 255\<rparr>],
         debounce_list_head = 1, last_time_initialized = True, last_time = 0 :: 16 word\<rparr>))) \<and>
   sparse_view (sparse_defaults 2) 0 1
     (Some (Inr ([0 :: 8 word],
        \<lparr>debounce_counters = [\<lparr>debounce_counter_t.remaining = 0, next = 255\<rparr>,
                              \<lparr>debounce_counter_t.remaining = 5, next = 255\<rparr>],
         debounce_list_head = 1, last_time_initialized = True, last_time = 0 :: 16 word\<rparr>))) = Some (False, 5) \<and>
   (5 :: 8 word) \<noteq> 0 \<and>
   scan_elapsed sparse_call_elapsed (sparse_scan (sparse_defaults 2) 1) [(1, [2], True), (2, [2], True), (3, [2], True)]
     (Some (Inr ([0 :: 8 word],
        \<lparr>debounce_counters = [\<lparr>debounce_counter_t.remaining = 0, next = 255\<rparr>,
                              \<lparr>debounce_counter_t.remaining = 5, next = 255\<rparr>],
         debounce_list_head = 1, last_time_initialized = True, last_time = 0 :: 16 word\<rparr>))) = [1, 1, 1] \<and>
   scan_trace (sparse_scan (sparse_defaults 2) 1) [(1, [2], True), (2, [2], True), (3, [2], True)]
     (Some (Inr ([0 :: 8 word],
        \<lparr>debounce_counters = [\<lparr>debounce_counter_t.remaining = 0, next = 255\<rparr>,
                              \<lparr>debounce_counter_t.remaining = 5, next = 255\<rparr>],
         debounce_list_head = 1, last_time_initialized = True, last_time = 0 :: 16 word\<rparr>))) =
     [Some (Inr ([0 :: 8 word],
        \<lparr>debounce_counters = [\<lparr>debounce_counter_t.remaining = 0, next = 255\<rparr>,
                              \<lparr>debounce_counter_t.remaining = 5, next = 255\<rparr>],
         debounce_list_head = 1, last_time_initialized = True, last_time = 1 :: 16 word\<rparr>)),
      Some (Inr ([0 :: 8 word],
        \<lparr>debounce_counters = [\<lparr>debounce_counter_t.remaining = 0, next = 255\<rparr>,
                              \<lparr>debounce_counter_t.remaining = 5, next = 255\<rparr>],
         debounce_list_head = 1, last_time_initialized = True, last_time = 2 :: 16 word\<rparr>)),
      Some (Inr ([0 :: 8 word],
        \<lparr>debounce_counters = [\<lparr>debounce_counter_t.remaining = 0, next = 255\<rparr>,
                              \<lparr>debounce_counter_t.remaining = 5, next = 255\<rparr>],
         debounce_list_head = 1, last_time_initialized = True, last_time = 3 :: 16 word\<rparr>))] \<and>
   sparse_view (sparse_defaults 2) 0 1
     (Some (Inr ([0 :: 8 word],
        \<lparr>debounce_counters = [\<lparr>debounce_counter_t.remaining = 0, next = 255\<rparr>,
                              \<lparr>debounce_counter_t.remaining = 5, next = 255\<rparr>],
         debounce_list_head = 1, last_time_initialized = True, last_time = 3 :: 16 word\<rparr>))) = Some (False, 5) \<and>
   sparse_elapsed_of 2
     (Some (Inr ([0 :: 8 word],
        \<lparr>debounce_counters = [\<lparr>debounce_counter_t.remaining = 0, next = 255\<rparr>,
                              \<lparr>debounce_counter_t.remaining = 5, next = 255\<rparr>],
         debounce_list_head = 1, last_time_initialized = True, last_time = 0 :: 16 word\<rparr>))) = 2 \<and>
   sparse_view (sparse_defaults 2) 0 1 (sparse_scan (sparse_defaults 2) 1 (2, [0], False)
     (Some (Inr ([0 :: 8 word],
        \<lparr>debounce_counters = [\<lparr>debounce_counter_t.remaining = 0, next = 255\<rparr>,
                              \<lparr>debounce_counter_t.remaining = 5, next = 255\<rparr>],
         debounce_list_head = 1, last_time_initialized = True, last_time = 0 :: 16 word\<rparr>)))) = Some (False, 3)"
proof -
  let ?cfg = "sparse_defaults 2"
  let ?r = "(Some (Inr ([0 :: 8 word],
        \<lparr>debounce_counters = [\<lparr>debounce_counter_t.remaining = 0, next = 255\<rparr>,
                              \<lparr>debounce_counter_t.remaining = 5, next = 255\<rparr>],
         debounce_list_head = 1, last_time_initialized = True, last_time = 0 :: 16 word\<rparr>)))"
  let ?calls = "[(1, [2], True), (2, [2], True), (3, [2], True)] :: (16 word \<times> 8 word list \<times> bool) list"
  have h: "window_ok ?cfg" "0 < MATRIX_COLS ?cfg" "(0::nat) < 1" "1 < MATRIX_COLS ?cfg"
    by (simp_all add: window_ok_def sparse_defaults_def DEBOUNCE_def)
  have "sparse_chain [\<lparr>debounce_counter_t.remaining = 0, next = 255\<rparr>,
                      \<lparr>debounce_counter_t.remaining = 5, next = 255\<rparr>] 1 [1]"
    by (simp add: DEBOUNCE_NULL_def)
  then have "sparse_listed [\<lparr>debounce_counter_t.remaining = 0, next = 255\<rparr>,
                      \<lparr>debounce_counter_t.remaining = 5, next = 255\<rparr>] 1"
    unfolding sparse_listed_def by (intro exI [of _ "[1]"]) (simp add: less_Suc_eq)
  then have ok: "sparse_ok ?cfg 1 ?r"
    by (simp add: sparse_ok_def sparse_inv_def sparse_defaults_def)
  have v: "sparse_view ?cfg 0 1 ?r = Some (False, 5)"
    by (simp add: sparse_view_def sparse_defaults_def)
  have c: "(5 :: 8 word) \<noteq> 0" by simp
  have el: "scan_elapsed sparse_call_elapsed (sparse_scan ?cfg 1) ?calls ?r = [1, 1, 1]"
    by code_simp
  have tr: "scan_trace (sparse_scan ?cfg 1) ?calls ?r =
     [Some (Inr ([0 :: 8 word],
        \<lparr>debounce_counters = [\<lparr>debounce_counter_t.remaining = 0, next = 255\<rparr>,
                              \<lparr>debounce_counter_t.remaining = 5, next = 255\<rparr>],
         debounce_list_head = 1, last_time_initialized = True, last_time = 1 :: 16 word\<rparr>)),
      Some (Inr ([0 :: 8 word],
        \<lparr>debounce_counters = [\<lparr>debounce_counter_t.remaining = 0, next = 255\<rparr>,
                              \<lparr>debounce_counter_t.remaining = 5, next = 255\<rparr>],
         debounce_list_head = 1, last_time_initialized = True, last_time = 2 :: 16 word\<rparr>)),
      Some (Inr ([0 :: 8 word],
        \<lparr>debounce_counters = [\<lparr>debounce_counter_t.remaining = 0, next = 255\<rparr>,
                              \<lparr>debounce_counter_t.remaining = 5, next = 255\<rparr>],
         debounce_list_head = 1, last_time_initialized = True, last_time = 3 :: 16 word\<rparr>))]"
    by code_simp
  have e2: "sparse_elapsed_of 2 ?r = 2"
    by code_simp
  note t = sparse_flutter_defers [OF h ok v c, where calls = ?calls and raw = "[0]" and now = 2
      and changed = False]
  from t have r1: "sparse_view ?cfg 0 1
     (Some (Inr ([0 :: 8 word],
        \<lparr>debounce_counters = [\<lparr>debounce_counter_t.remaining = 0, next = 255\<rparr>,
                              \<lparr>debounce_counter_t.remaining = 5, next = 255\<rparr>],
         debounce_list_head = 1, last_time_initialized = True, last_time = 3 :: 16 word\<rparr>))) = Some (False, 5)"
    unfolding tr el by simp
  from t have r2: "sparse_view ?cfg 0 1 (sparse_scan ?cfg 1 (2, [0], False) ?r) = Some (False, 3)"
    unfolding e2 by simp
  show ?thesis
    by (intro conjI h ok v c el tr r1 e2 r2)
qed














text \<open>
  The clock of the asymmetric engine. It has no \<open>get_elapsed\<close>: \<open>debounce_init\<close>
  records the reading, and no call of \<open>debounce\<close> assigns \<open>last_time\<close>, so every call
  measures from the reading of \<open>debounce_init\<close>.
\<close>

lemma asym_last_time_kept:
  "asym.last_time (snd (asym_scan cfg num_rows c s)) = asym.last_time (snd s)"
  by (cases c; cases s) (simp add: asym_scan_def asym_debounce_def Let_def split: prod.splits)

lemma asym_baseline_fixed:
  "\<forall>s'\<in>set (scan_trace (asym_scan cfg num_rows) calls (cooked, asym_debounce_init cfg num_rows t0)).
     asym.last_time (snd s') = t0"
proof -
  let ?s0 = "(cooked, asym_debounce_init cfg num_rows t0)"
  let ?P = "\<lambda>s :: 'a word list \<times> asym. asym.last_time (snd s) = t0"
  have "(\<forall>s'\<in>set (scan_trace (asym_scan cfg num_rows) calls ?s0). ?P s') \<and>
        ?P (fold (asym_scan cfg num_rows) calls ?s0)"
  proof (rule scan_invariant [where P = ?P])
    show "?P ?s0" by (simp add: asym_debounce_init_def)
  next
    fix c :: "16 word \<times> 'a word list \<times> bool" and s :: "'a word list \<times> asym"
    assume "?P s"
    then show "?P (asym_scan cfg num_rows c s)" by (simp add: asym_last_time_kept)
  qed
  then show ?thesis by simp
qed

lemma asym_elapsed_since_init:
  "scan_elapsed asym_call_elapsed (asym_scan (asym_defaults 1) 1)
     [(3, [0], False), (6, [0], False), (9, [0], False)]
     ([0 :: 8 word], asym_debounce_init (asym_defaults 1) 1 0) = [3, 6, 9]"
  by code_simp

end
